theory Spec2Isabelle
  imports Main "HOL-Library.Multiset" "HOL-Library.AList" "HOL-Library.Char_ord"
    "HOL-Library.List_Lexorder"
begin

section \<open>Data model\<close>

text \<open>
  A string is a list of characters with codes below 256.

  A flat mapping (\<^verbatim>\<open>Record<string, string>\<close>) is an association list in insertion
  order: \<^verbatim>\<open>obj[k] = v\<close> is \<open>AList.update k v\<close> (an existing key keeps its place, a
  new key goes to the end), \<^verbatim>\<open>obj[k]\<close> and \<^verbatim>\<open>k in obj\<close> are \<open>map_of\<close>, and
  \<^verbatim>\<open>Object.keys(obj)\<close> is \<open>map fst\<close>. These are the own properties; every key the
  flattener writes contains a slash, so none is a property that a plain object inherits.
\<close>

type_synonym flat_map = "(string \<times> string) list"

datatype ChangeKind = Added | Removed | Changed

record Diff =
  path :: string
  leftValue :: "string option"
  rightValue :: "string option"
  change :: ChangeKind

text \<open>
  A node of the structure the XML parser returns (\<^verbatim>\<open>Element\<close> of the parser's
  non-compact form): a \<^verbatim>\<open>type\<close>, and the optional fields \<^verbatim>\<open>name\<close>,
  \<^verbatim>\<open>attributes\<close>, \<^verbatim>\<open>text\<close>, \<^verbatim>\<open>cdata\<close> and \<^verbatim>\<open>elements\<close>. A
  missing field (\<^verbatim>\<open>undefined\<close>) is \<open>None\<close>. The parser puts the content of a text
  node in \<^verbatim>\<open>text\<close> and the content of a CDATA section in \<^verbatim>\<open>cdata\<close>. Attribute
  values are strings, so \<^verbatim>\<open>String(attrValue)\<close> is the value itself.
\<close>

datatype node_type = TElement | TText | TCdata | TComment | TOther

datatype Element = Element
  (el_type: node_type)
  (el_name: "string option")
  (el_attributes: "(string \<times> string) list option")
  (el_text: "string option")
  (el_cdata: "string option")
  (el_elements: "Element list option")

text \<open>The node of the editor's tree (\<^verbatim>\<open>EditableNode\<close>).\<close>

datatype EditableNode = EditableNode
  (node_id: string)
  (node_path: string)
  (node_name: string)
  (node_value: string)
  (node_attributes: "(string \<times> string) list")
  (isText: bool)
  (node_children: "EditableNode list")

text \<open>The messages of the worker.\<close>

datatype phase = PhaseLeft | PhaseRight | PhaseDiff

datatype progress_message =
  ParsingXML | ScanningElements | FlattenComplete | Diffing | Finalizing

record WorkerRequest =
  leftXml :: string
  rightXml :: string

datatype WorkerResponse =
  Progress phase int progress_message
| Done "Diff list" "ChangeKind \<Rightarrow> nat"
| Failed "string option" "string option"

record opts =
  opt_phase :: phase
  basePercent :: int
  spanPercent :: int

record FlatResult =
  map' :: flat_map
  error :: "string option"

section \<open>Strings\<close>

text \<open>A number in a template literal: its decimal digits.\<close>

definition digit_char :: "nat \<Rightarrow> char" where
  "digit_char d = ''0123456789'' ! d"

fun show_nat :: "nat \<Rightarrow> string" where
  "show_nat n = (if n < 10 then [digit_char n] else show_nat (n div 10) @ [digit_char (n mod 10)])"

declare show_nat.simps [simp del]

text \<open>\<^verbatim>\<open>Array.prototype.join('.')\<close>.\<close>

fun join_dot :: "string list \<Rightarrow> string" where
  "join_dot [] = []"
| "join_dot [s] = s"
| "join_dot (s # t # ss) = s @ ''.'' @ join_dot (t # ss)"

text \<open>
  \<^verbatim>\<open>String.prototype.trim\<close> removes white space and line terminators from both
  ends. Among the characters with codes below 256 these are tab, line feed, vertical
  tab, form feed, carriage return, space and the no-break space U+00A0.
\<close>

definition is_space :: "char \<Rightarrow> bool" where
  "is_space c =
     (c \<in> set [CHR 0x09, CHR 0x0A, CHR 0x0B, CHR 0x0C, CHR 0x0D, CHR 0x20, CHR 0xA0])"

definition trim :: "string \<Rightarrow> string" where
  "trim s = rev (dropWhile is_space (rev (dropWhile is_space s)))"


section \<open>A plain object as a table of counters\<close>

text \<open>
  \<^verbatim>\<open>siblingCounts\<close> is a plain object \<^verbatim>\<open>{}\<close> indexed by element names. Its own
  properties are a map; a name it does not own is looked up in \<^verbatim>\<open>Object.prototype\<close>.
  The value read is a number, a string, or an inherited function or object, which
  \<^verbatim>\<open>+ 1\<close> turns into a string: an index is a number or a string.
\<close>

datatype js_index = Num nat | Str string

text \<open>
  The properties a plain object inherits, each as the string that \<^verbatim>\<open>+\<close> converts it
  to: \<^verbatim>\<open>__proto__\<close> is \<^verbatim>\<open>Object.prototype\<close> itself, the others are native
  functions (printed as V8 prints them).
\<close>

definition Object_prototype :: "string \<Rightarrow> string option" where
  "Object_prototype name =
     (if name = ''__proto__'' then Some ''[object Object]''
      else if name = ''constructor'' then Some ''function Object() { [native code] }''
      else if name \<in> set [''__defineGetter__'', ''__defineSetter__'', ''hasOwnProperty'',
                ''__lookupGetter__'', ''__lookupSetter__'', ''isPrototypeOf'',
                ''propertyIsEnumerable'', ''toString'', ''valueOf'', ''toLocaleString'']
      then Some (''function '' @ name @ ''() { [native code] }'')
      else None)"

text \<open>\<^verbatim>\<open>siblingCounts[name]\<close>: \<open>None\<close> is \<^verbatim>\<open>undefined\<close>.\<close>

definition get_count :: "(string \<rightharpoonup> js_index) \<Rightarrow> string \<Rightarrow> js_index option" where
  "get_count siblingCounts name =
     (case siblingCounts name of
        Some v \<Rightarrow> Some v
      | None \<Rightarrow> map_option Str (Object_prototype name))"

text \<open>
  \<^verbatim>\<open>siblingCounts[name] = v\<close> for a number or a string \<open>v\<close>: the setter of
  \<^verbatim>\<open>__proto__\<close> ignores such a value, every other name becomes an own property.
\<close>

definition set_count ::
  "(string \<rightharpoonup> js_index) \<Rightarrow> string \<Rightarrow> js_index \<Rightarrow> (string \<rightharpoonup> js_index)" where
  "set_count siblingCounts name v =
     (if name = ''__proto__'' then siblingCounts else siblingCounts(name \<mapsto> v))"

text \<open>\<^verbatim>\<open>v + 1\<close>: addition of numbers, concatenation for a string.\<close>

fun plus_one :: "js_index \<Rightarrow> js_index" where
  "plus_one (Num n) = Num (n + 1)"
| "plus_one (Str s) = Str (s @ ''1'')"

text \<open>\<^verbatim>\<open>(siblingCounts[name] ?? 0) + 1\<close>, of the flattener.\<close>

definition next_index :: "(string \<rightharpoonup> js_index) \<Rightarrow> string \<Rightarrow> js_index" where
  "next_index siblingCounts name =
     plus_one (case get_count siblingCounts name of None \<Rightarrow> Num 0 | Some v \<Rightarrow> v)"

text \<open>\<^verbatim>\<open>(siblingCounts[name] || 0) + 1\<close>, of the editor: 0 and the empty string are falsy.\<close>

definition next_count :: "(string \<rightharpoonup> js_index) \<Rightarrow> string \<Rightarrow> js_index" where
  "next_count siblingCounts name =
     plus_one (case get_count siblingCounts name of
                 None \<Rightarrow> Num 0
               | Some v \<Rightarrow> if v = Num 0 \<or> v = Str [] then Num 0 else v)"

text \<open>An index in a template literal.\<close>

fun show_index :: "js_index \<Rightarrow> string" where
  "show_index (Num n) = show_nat n"
| "show_index (Str s) = s"

text \<open>The segment \<^verbatim>\<open>`${name}[${currentIndex}]`\<close>.\<close>

definition segment :: "string \<Rightarrow> js_index \<Rightarrow> string" where
  "segment name currentIndex = name @ ''['' @ show_index currentIndex @ '']''"

section \<open>The diff engine: \<^verbatim>\<open>diffMaps\<close>\<close>

text \<open>\<^verbatim>\<open>new Set(xs)\<close>: the elements in the order of their first occurrence.\<close>

definition Set_add :: "'a list \<Rightarrow> 'a \<Rightarrow> 'a list" where
  "Set_add s k = (if k \<in> set s then s else s @ [k])"

definition new_Set :: "'a list \<Rightarrow> 'a list" where
  "new_Set xs = foldl Set_add [] xs"

text \<open>
  \<^verbatim>\<open>Array.prototype.sort(compare)\<close> is a stable sort; it is modelled by insertion
  sort, which places an element before the first later element that does not compare
  below it. The comparison function is a parameter.
\<close>

fun insert_by :: "('a \<Rightarrow> 'a \<Rightarrow> int) \<Rightarrow> 'a \<Rightarrow> 'a list \<Rightarrow> 'a list" where
  "insert_by cmp x [] = [x]"
| "insert_by cmp x (y # ys) =
     (if cmp x y \<le> 0 then x # y # ys else y # insert_by cmp x ys)"

definition sort_by :: "('a \<Rightarrow> 'a \<Rightarrow> int) \<Rightarrow> 'a list \<Rightarrow> 'a list" where
  "sort_by cmp xs = foldr (insert_by cmp) xs []"

text \<open>The body of the \<^verbatim>\<open>keys.forEach\<close> callback of \<^verbatim>\<open>diffMaps\<close>.\<close>

definition diff_key ::
  "flat_map \<Rightarrow> flat_map \<Rightarrow> Diff list \<times> (ChangeKind \<Rightarrow> nat) \<Rightarrow> string
    \<Rightarrow> Diff list \<times> (ChangeKind \<Rightarrow> nat)" where
  "diff_key left right acc key =
     (case acc of (differences, stats) \<Rightarrow>
        if map_of right key = None then
          (differences @
             [\<lparr>path = key, leftValue = map_of left key, rightValue = None, change = Removed\<rparr>],
           stats(Removed := stats Removed + 1))
        else if map_of left key = None then
          (differences @
             [\<lparr>path = key, leftValue = None, rightValue = map_of right key, change = Added\<rparr>],
           stats(Added := stats Added + 1))
        else if map_of left key \<noteq> map_of right key then
          (differences @
             [\<lparr>path = key, leftValue = map_of left key, rightValue = map_of right key,
               change = Changed\<rparr>],
           stats(Changed := stats Changed + 1))
        else (differences, stats))"

text \<open>
  \<^verbatim>\<open>diffMaps(left, right)\<close>; \<open>localeCompare\<close> stands for
  \<^verbatim>\<open>String.prototype.localeCompare\<close>.
\<close>

definition diffMaps ::
  "(string \<Rightarrow> string \<Rightarrow> int) \<Rightarrow> flat_map \<Rightarrow> flat_map \<Rightarrow> Diff list \<times> (ChangeKind \<Rightarrow> nat)" where
  "diffMaps localeCompare left right =
     (let keys = new_Set (map fst left @ map fst right);
          (differences, stats) = foldl (diff_key left right) ([], \<lambda>_. 0) keys
      in (sort_by (\<lambda>a b. localeCompare (path a) (path b)) differences, stats))"

text \<open>A comparison of strings by character codes, used to run \<open>diffMaps\<close> on examples.\<close>

definition compare_codes :: "string \<Rightarrow> string \<Rightarrow> int" where
  "compare_codes a b = (if a < b then - 1 else if a = b then 0 else 1)"

text \<open>
  A comparison that, as a locale-aware comparison does, ignores some characters: here
  the control character U+0001 and the soft hyphen U+00AD. It compares what is left
  by character codes.
\<close>

definition ignorable :: "char \<Rightarrow> bool" where
  "ignorable c = (c = CHR 0x01 \<or> c = CHR 0xAD)"

definition compare_ignoring :: "string \<Rightarrow> string \<Rightarrow> int" where
  "compare_ignoring a b =
     compare_codes (filter (\<lambda>c. \<not> ignorable c) a) (filter (\<lambda>c. \<not> ignorable c) b)"

text \<open>Two mappings whose keys \<^verbatim>\<open>a[1]/@k\<close> differ by a soft hyphen at the end.\<close>

definition key_plain :: string where
  "key_plain = ''a[1]/@k''"

definition key_soft_hyphen :: string where
  "key_soft_hyphen = ''a[1]/@k'' @ [CHR 0xAD]"

definition tie_left :: flat_map where
  "tie_left = [(key_plain, ''1''), (''a[1]/@j'', ''0'')]"

definition tie_right :: flat_map where
  "tie_right = [(key_soft_hyphen, ''2'')]"

text \<open>The record that one key contributes: the classification rule as one function.\<close>

definition record_for :: "flat_map \<Rightarrow> flat_map \<Rightarrow> string \<Rightarrow> Diff list" where
  "record_for left right key =
     (case (map_of left key, map_of right key) of
        (Some l, None) \<Rightarrow> [\<lparr>path = key, leftValue = Some l, rightValue = None, change = Removed\<rparr>]
      | (None, Some r) \<Rightarrow> [\<lparr>path = key, leftValue = None, rightValue = Some r, change = Added\<rparr>]
      | (Some l, Some r) \<Rightarrow>
          (if l \<noteq> r
           then [\<lparr>path = key, leftValue = Some l, rightValue = Some r, change = Changed\<rparr>]
           else [])
      | (None, None) \<Rightarrow> [])"

section \<open>The path flattener: \<^verbatim>\<open>extractText\<close> and \<^verbatim>\<open>mapXmlToFlat\<close>\<close>

definition extractText :: "Element list option \<Rightarrow> string" where
  "extractText nodes =
     (case nodes of
        None \<Rightarrow> []
      | Some ns \<Rightarrow>
          trim (foldl (\<lambda>out node.
                  if el_type node = TText \<or> el_type node = TCdata
                  then out @ (case el_text node of None \<Rightarrow> [] | Some t \<Rightarrow> t)
                  else out) [] ns))"

text \<open>
  The state of the traversal: the collector, the work list (its head is the top of the
  stack), the two counters, and the calls of \<^verbatim>\<open>postProgress\<close> made so far, in
  order.
\<close>

record flatten_state =
  collector :: flat_map
  stack :: "(Element list option \<times> string list) list"
  processedElements :: nat
  lastEmit :: nat
  posted :: "(int \<times> progress_message) list"

text \<open>
  The progress estimate
  \<^verbatim>\<open>Math.min(99, Math.max(0, Math.round(basePercent + ratio * spanPercent)))\<close> with
  \<^verbatim>\<open>ratio = processed / (processed + stack.length + 1)\<close>. The floating-point
  expression \<^verbatim>\<open>Math.round(basePercent + ratio * spanPercent)\<close> is a parameter: a
  function of the base, the span, the number of processed elements and the length of
  the stack.
\<close>

type_synonym estimate = "int \<Rightarrow> int \<Rightarrow> nat \<Rightarrow> nat \<Rightarrow> int"

definition progress_pct :: "estimate \<Rightarrow> opts \<Rightarrow> nat \<Rightarrow> nat \<Rightarrow> int" where
  "progress_pct est o' processed stack_length =
     min 99 (max 0 (est (basePercent o') (spanPercent o') processed stack_length))"

text \<open>\<^verbatim>\<open>el.name ?? 'unnamed'\<close>.\<close>

definition element_name :: "Element \<Rightarrow> string" where
  "element_name el = (case el_name el of None \<Rightarrow> ''unnamed'' | Some n \<Rightarrow> n)"

definition write_attributes :: "string \<Rightarrow> (string \<times> string) list \<Rightarrow> flat_map \<Rightarrow> flat_map" where
  "write_attributes pathString attrs c =
     foldl (\<lambda>c (attrName, attrValue). AList.update (pathString @ ''/@'' @ attrName) attrValue c)
       c attrs"

text \<open>The body of the \<^verbatim>\<open>for\<close> loop for one node of type \<^verbatim>\<open>element\<close>.\<close>

definition visit_element ::
  "estimate \<Rightarrow> opts \<Rightarrow> string list \<Rightarrow> js_index \<Rightarrow> Element \<Rightarrow> flatten_state \<Rightarrow> flatten_state" where
  "visit_element est o' item_path currentIndex el st =
     (let processed = processedElements st + 1;
          currentPath = item_path @ [segment (element_name el) currentIndex];
          pathString = join_dot currentPath;
          c1 = (case el_attributes el of
                  None \<Rightarrow> collector st
                | Some attrs \<Rightarrow> write_attributes pathString attrs (collector st));
          textContent = extractText (el_elements el);
          c2 = (if textContent \<noteq> [] then AList.update (pathString @ ''/#text'') textContent c1
                else c1);
          stk = (case map_option (filter (\<lambda>n. el_type n = TElement)) (el_elements el) of
                   None \<Rightarrow> stack st
                 | Some children \<Rightarrow>
                     if length children > 0 then (Some children, currentPath) # stack st
                     else stack st);
          emit = (processed - lastEmit st \<ge> 250)
      in \<lparr>collector = c2, stack = stk, processedElements = processed,
           lastEmit = (if emit then processed else lastEmit st),
           posted = (if emit
                     then posted st @ [(progress_pct est o' processed (length stk), ScanningElements)]
                     else posted st)\<rparr>)"

text \<open>The \<^verbatim>\<open>for (const el of elements)\<close> loop of one work item.\<close>

fun for_elements ::
  "estimate \<Rightarrow> opts \<Rightarrow> string list \<Rightarrow> Element list \<Rightarrow> (string \<rightharpoonup> js_index) \<Rightarrow> flatten_state
    \<Rightarrow> flatten_state" where
  "for_elements est o' item_path [] siblingCounts st = st"
| "for_elements est o' item_path (el # els) siblingCounts st =
     (if el_type el \<noteq> TElement then for_elements est o' item_path els siblingCounts st
      else
        (let name = element_name el;
             currentIndex = next_index siblingCounts name
         in for_elements est o' item_path els (set_count siblingCounts name currentIndex)
              (visit_element est o' item_path currentIndex el st)))"

text \<open>The size of the work that a node and a work item stand for.\<close>

fun weight :: "Element \<Rightarrow> nat" where
  "weight (Element t n a tx cd es) =
     1 + (case es of None \<Rightarrow> 0 | Some xs \<Rightarrow> sum_list (map weight xs))"

definition item_weight :: "Element list option \<times> string list \<Rightarrow> nat" where
  "item_weight item = 1 + (case fst item of None \<Rightarrow> 0 | Some xs \<Rightarrow> sum_list (map weight xs))"

definition stack_weight :: "flatten_state \<Rightarrow> nat" where
  "stack_weight st = sum_list (map item_weight (stack st))"

text \<open>The \<^verbatim>\<open>while (stack.length)\<close> loop.\<close>

function flatten_loop :: "estimate \<Rightarrow> opts \<Rightarrow> flatten_state \<Rightarrow> flatten_state" where
  "flatten_loop est o' st =
     (case stack st of
        [] \<Rightarrow> st
      | (elements, item_path) # rest \<Rightarrow>
          (case elements of
             None \<Rightarrow> flatten_loop est o' (st\<lparr>stack := rest\<rparr>)
           | Some els \<Rightarrow>
               flatten_loop est o' (for_elements est o' item_path els Map.empty (st\<lparr>stack := rest\<rparr>))))"
  by pat_completeness auto

lemma weight_filter_le: "sum_list (map weight (filter P xs)) \<le> sum_list (map weight xs)"
  by (induction xs) auto

lemma stack_weight_visit_element:
  "stack_weight (visit_element est o' p i el st) \<le> stack_weight st + weight el"
proof (cases el)
  case (Element t n a tx cd es)
  show ?thesis
  proof (cases es)
    case None
    with Element show ?thesis by (simp add: visit_element_def stack_weight_def Let_def)
  next
    case (Some xs)
    with Element show ?thesis
      using weight_filter_le [of "\<lambda>n. el_type n = TElement" xs]
      by (simp add: visit_element_def stack_weight_def item_weight_def Let_def)
  qed
qed

lemma stack_weight_for_elements:
  "stack_weight (for_elements est o' p els sc st) \<le> stack_weight st + sum_list (map weight els)"
proof (induction els arbitrary: sc st)
  case Nil
  then show ?case by simp
next
  case (Cons el els)
  show ?case
  proof (cases "el_type el = TElement")
    case False
    with Cons.IH [of sc st] show ?thesis by simp
  next
    case True
    let ?st = "visit_element est o' p (next_index sc (element_name el)) el st"
    have "stack_weight (for_elements est o' p els (set_count sc (element_name el) (next_index sc (element_name el))) ?st)
        \<le> stack_weight ?st + sum_list (map weight els)"
      by (rule Cons.IH)
    also have "\<dots> \<le> stack_weight st + weight el + sum_list (map weight els)"
      using stack_weight_visit_element [of est o' p _ el st] by simp
    finally show ?thesis using True by (simp add: Let_def)
  qed
qed

termination flatten_loop
proof (relation "measure (\<lambda>(est, o', st). stack_weight st)")
  show "wf (measure (\<lambda>(est, o', st). stack_weight st))" by simp
next
  fix est :: estimate and o' :: opts and st :: flatten_state and x21 x22 x xa
  assume "stack st = x21 # x22" "(x, xa) = x21" "x = None"
  then show "((est, o', st\<lparr>stack := x22\<rparr>), est, o', st) \<in> measure (\<lambda>(est, o', st). stack_weight st)"
    by (simp add: stack_weight_def item_weight_def)
next
  fix est :: estimate and o' :: opts and st :: flatten_state and x21 x22 x xa x2
  assume a: "stack st = x21 # x22" "(x, xa) = x21" "x = Some x2"
  have "stack_weight (for_elements est o' xa x2 Map.empty (st\<lparr>stack := x22\<rparr>))
      \<le> stack_weight (st\<lparr>stack := x22\<rparr>) + sum_list (map weight x2)"
    by (rule stack_weight_for_elements)
  also have "\<dots> < stack_weight st"
    using a by (auto simp: stack_weight_def item_weight_def)
  finally show "((est, o', for_elements est o' xa x2 Map.empty (st\<lparr>stack := x22\<rparr>)), est, o', st)
      \<in> measure (\<lambda>(est, o', st). stack_weight st)"
    by simp
qed

declare flatten_loop.simps [simp del]

text \<open>
  The traversal of the parsed document (the \<^verbatim>\<open>try\<close> block of \<^verbatim>\<open>mapXmlToFlat\<close>
  after the parser's call): the result and the calls of \<^verbatim>\<open>postProgress\<close>.
\<close>

definition flatten_parsed ::
  "estimate \<Rightarrow> opts \<Rightarrow> Element list option \<Rightarrow> FlatResult \<times> (int \<times> progress_message) list" where
  "flatten_parsed est o' rootElements =
     (let st = flatten_loop est o'
            \<lparr>collector = [], stack = [(rootElements, [])], processedElements = 0, lastEmit = 0,
             posted = [(basePercent o', ParsingXML)]\<rparr>
      in (\<lparr>map' = collector st, error = None\<rparr>,
          posted st @ [(basePercent o' + spanPercent o', FlattenComplete)]))"

text \<open>
  \<^verbatim>\<open>mapXmlToFlat(xml, opts)\<close>. The parser \<open>xml2js\<close> is a parameter: it returns
  the \<^verbatim>\<open>elements\<close> of the parsed document, or the message of the error it throws.
  A node of type \<^verbatim>\<open>cdata\<close> that the parser returns has no \<^verbatim>\<open>text\<close>.
\<close>

definition mapXmlToFlat ::
  "(string \<Rightarrow> string + Element list option) \<Rightarrow> estimate \<Rightarrow> string \<Rightarrow> opts
    \<Rightarrow> FlatResult \<times> (int \<times> progress_message) list" where
  "mapXmlToFlat xml2js est xml o' =
     (case xml2js xml of
        Inl message \<Rightarrow> (\<lparr>map' = [], error = Some message\<rparr>, [(basePercent o', ParsingXML)])
      | Inr rootElements \<Rightarrow> flatten_parsed est o' rootElements)"

section \<open>The worker: \<^verbatim>\<open>self.onmessage\<close>\<close>

text \<open>A value of type \<^verbatim>\<open>string | undefined\<close> in a condition.\<close>

definition truthy :: "string option \<Rightarrow> bool" where
  "truthy s = (case s of None \<Rightarrow> False | Some v \<Rightarrow> v \<noteq> [])"

text \<open>The messages posted for one request, in order.\<close>

definition onmessage ::
  "(string \<Rightarrow> string + Element list option) \<Rightarrow> estimate \<Rightarrow> (string \<Rightarrow> string \<Rightarrow> int)
    \<Rightarrow> WorkerRequest \<Rightarrow> WorkerResponse list" where
  "onmessage xml2js est localeCompare req =
     (let (left, left_posted) = mapXmlToFlat xml2js est (leftXml req)
            \<lparr>opt_phase = PhaseLeft, basePercent = 0, spanPercent = 45\<rparr>;
          (right, right_posted) = mapXmlToFlat xml2js est (rightXml req)
            \<lparr>opt_phase = PhaseRight, basePercent = 45, spanPercent = 45\<rparr>;
          msgs = map (\<lambda>(p, m). Progress PhaseLeft p m) left_posted @
                 map (\<lambda>(p, m). Progress PhaseRight p m) right_posted
      in if truthy (error left) \<or> truthy (error right)
         then msgs @ [Failed (error left) (error right)]
         else (let (differences, stats) = diffMaps localeCompare (map' left) (map' right)
               in msgs @ [Progress PhaseDiff 92 Diffing, Progress PhaseDiff 99 Finalizing,
                          Done differences stats]))"

section \<open>The traversal as a function of the document\<close>

text \<open>
  The elements of one sibling list with the path the loop gives each of them: nodes of
  another type are skipped and take no index.
\<close>

fun indexed ::
  "string list \<Rightarrow> (string \<rightharpoonup> js_index) \<Rightarrow> Element list \<Rightarrow> (string list \<times> Element) list" where
  "indexed p sc [] = []"
| "indexed p sc (el # els) =
     (if el_type el \<noteq> TElement then indexed p sc els
      else (p @ [segment (element_name el) (next_index sc (element_name el))], el) #
           indexed p (set_count sc (element_name el) (next_index sc (element_name el))) els)"

text \<open>The entries one element writes, in order: its attributes, then its text.\<close>

definition entries :: "string \<Rightarrow> Element \<Rightarrow> (string \<times> string) list" where
  "entries pathString el =
     (case el_attributes el of
        None \<Rightarrow> []
      | Some attrs \<Rightarrow> map (\<lambda>(a, v). (pathString @ ''/@'' @ a, v)) attrs) @
     (if extractText (el_elements el) \<noteq> []
      then [(pathString @ ''/#text'', extractText (el_elements el))] else [])"

definition element_children :: "Element \<Rightarrow> Element list" where
  "element_children el =
     (case el_elements el of None \<Rightarrow> [] | Some ns \<Rightarrow> filter (\<lambda>n. el_type n = TElement) ns)"

text \<open>
  The elements the loop visits below a work item, each with its path, in the order of
  the loop: the elements of the item, then the work items of their children, the last
  pushed first.
\<close>

function visited :: "string list \<Rightarrow> Element list \<Rightarrow> (string list \<times> Element) list" where
  "visited p els =
     indexed p Map.empty els @
     concat (map (\<lambda>(cp, el). visited cp (element_children el)) (rev (indexed p Map.empty els)))"
  by pat_completeness auto

lemma indexed_subset: "(cp, el) \<in> set (indexed p sc els) \<Longrightarrow> el \<in> set els"
  by (induction els arbitrary: sc) (auto split: if_splits)

lemma weight_element_children: "sum_list (map weight (element_children el)) < weight el"
  using weight_filter_le [of "\<lambda>n. el_type n = TElement"]
  by (cases el) (auto simp: element_children_def le_imp_less_Suc split: option.splits)

lemma weight_member: "el \<in> set els \<Longrightarrow> weight el \<le> sum_list (map weight els)"
  by (induction els) auto

termination visited
proof (relation "measure (\<lambda>(p, els). sum_list (map weight els))")
  show "wf (measure (\<lambda>(p, els). sum_list (map weight els)))" by simp
next
  fix p :: "string list" and els :: "Element list" and x :: "string list \<times> Element" and cp el
  assume "x \<in> set (rev (indexed p Map.empty els))" "(cp, el) = x"
  then have "el \<in> set els" using indexed_subset [of cp el p Map.empty els] by simp
  then show "((cp, element_children el), p, els) \<in> measure (\<lambda>(p, els). sum_list (map weight els))"
    using weight_element_children [of el] weight_member [of el els] by simp
qed

declare visited.simps [simp del]

text \<open>All the writes to the collector that a work item causes, in order.\<close>

definition writes :: "string list \<Rightarrow> Element list \<Rightarrow> (string \<times> string) list" where
  "writes p els = concat (map (\<lambda>(cp, el). entries (join_dot cp) el) (visited p els))"

definition apply_writes :: "flat_map \<Rightarrow> (string \<times> string) list \<Rightarrow> flat_map" where
  "apply_writes c ws = foldl (\<lambda>c (k, v). AList.update k v c) c ws"

definition item_writes :: "Element list option \<times> string list \<Rightarrow> (string \<times> string) list" where
  "item_writes item = writes (snd item) (case fst item of None \<Rightarrow> [] | Some els \<Rightarrow> els)"

text \<open>The work items pushed while the elements of one item are scanned, in order.\<close>

definition pushed :: "(string list \<times> Element) list \<Rightarrow> (Element list option \<times> string list) list" where
  "pushed ixs = map (\<lambda>(cp, el). (Some (element_children el), cp))
     (filter (\<lambda>(cp, el). element_children el \<noteq> []) ixs)"

text \<open>No node of the document has the empty string as its name.\<close>

fun named_node :: "Element \<Rightarrow> bool" where
  "named_node (Element t n a tx cd es) =
     (n \<noteq> Some [] \<and> (case es of None \<Rightarrow> True | Some xs \<Rightarrow> list_all named_node xs))"

text \<open>
  The \<^verbatim>\<open>text\<close> fields of the direct text and cdata children of a node,
  concatenated and trimmed.
\<close>

definition direct_text :: "Element list \<Rightarrow> string" where
  "direct_text ns =
     trim (concat (map (\<lambda>n. case el_text n of None \<Rightarrow> [] | Some t \<Rightarrow> t)
       (filter (\<lambda>n. el_type n = TText \<or> el_type n = TCdata) ns)))"

section \<open>The editor: building, serializing and reindexing the tree\<close>

text \<open>
  The \<^verbatim>\<open>forEach\<close> loop of \<^verbatim>\<open>buildEditableTree\<close>, with its \<^verbatim>\<open>siblingCounts\<close>.
  The name is \<^verbatim>\<open>el.name || 'unnamed'\<close> and the text of a child is
  \<^verbatim>\<open>n.text || ''\<close>.
\<close>

lemma weight_pos: "0 < weight el"
  by (cases el) simp

function buildEditableTree_each ::
  "Element list \<Rightarrow> string \<Rightarrow> string \<Rightarrow> (string \<rightharpoonup> js_index) \<Rightarrow> EditableNode list" where
  "buildEditableTree_each [] path' parentPath siblingCounts = []"
| "buildEditableTree_each (el # els) path' parentPath siblingCounts =
     (if el_type el \<noteq> TElement then buildEditableTree_each els path' parentPath siblingCounts
      else
        (let name = (case el_name el of None \<Rightarrow> ''unnamed''
                     | Some n \<Rightarrow> if n = [] then ''unnamed'' else n);
             count = next_count siblingCounts name;
             currentPath = (if path' \<noteq> [] then path' @ ''.'' @ segment name count
                            else segment name count);
             fullParentPath = (if parentPath \<noteq> [] then parentPath @ ''.'' @ name else name);
             textNodes = (case el_elements el of
                            None \<Rightarrow> []
                          | Some ns \<Rightarrow> filter (\<lambda>n. el_type n = TText \<or> el_type n = TCdata) ns);
             textValue = trim (concat (map (\<lambda>n. case el_text n of None \<Rightarrow> [] | Some t \<Rightarrow> t)
                                        textNodes));
             attributes = (case el_attributes el of None \<Rightarrow> [] | Some a \<Rightarrow> a);
             children = buildEditableTree_each (element_children el) currentPath fullParentPath
                          Map.empty
         in EditableNode currentPath currentPath name textValue attributes True children #
            buildEditableTree_each els path' parentPath (set_count siblingCounts name count)))"
  by pat_completeness auto
termination
proof (relation "measure (\<lambda>(els, path', parentPath, sc). sum_list (map weight els))")
  show "wf (measure (\<lambda>(els, path', parentPath, sc :: string \<rightharpoonup> js_index).
      sum_list (map weight els)))"
    by simp
next
  fix el :: Element and els :: "Element list" and path' parentPath :: string
    and siblingCounts :: "string \<rightharpoonup> js_index"
  show "((els, path', parentPath, siblingCounts), el # els, path', parentPath, siblingCounts)
      \<in> measure (\<lambda>(els, path', parentPath, sc). sum_list (map weight els))"
    using weight_pos [of el] by simp
next
  fix el :: Element and els :: "Element list" and path' parentPath :: string
    and siblingCounts :: "string \<rightharpoonup> js_index" and x xa xb xc xd xe xf
  show "((element_children el, xb, xc, Map.empty), el # els, path', parentPath, siblingCounts)
      \<in> measure (\<lambda>(els, path', parentPath, sc). sum_list (map weight els))"
    using weight_element_children [of el] by simp
next
  fix el :: Element and els :: "Element list" and path' parentPath :: string
    and siblingCounts :: "string \<rightharpoonup> js_index" and x xa
  show "((els, path', parentPath, set_count siblingCounts x xa), el # els, path', parentPath,
      siblingCounts) \<in> measure (\<lambda>(els, path', parentPath, sc). sum_list (map weight els))"
    using weight_pos [of el] by simp
qed

definition buildEditableTree :: "Element list option \<Rightarrow> string \<Rightarrow> string \<Rightarrow> EditableNode list" where
  "buildEditableTree elements path' parentPath =
     (case elements of
        None \<Rightarrow> []
      | Some els \<Rightarrow> buildEditableTree_each els path' parentPath Map.empty)"

fun buildXmlFromEditable :: "EditableNode list \<Rightarrow> Element list" where
  "buildXmlFromEditable [] = []"
| "buildXmlFromEditable (EditableNode i p name v attributes t ch # nodes) =
     Element TElement (Some name)
       (if length (map fst attributes) > 0 then Some attributes else None) None None
       (Some ((if v \<noteq> [] then [Element TText None None (Some v) None None] else []) @
              (if length ch > 0 then buildXmlFromEditable ch else []))) #
     buildXmlFromEditable nodes"




text \<open>
  \<^verbatim>\<open>regenerateIds(nodes, parentPath, siblingCounts)\<close>: the counters of the call are
  threaded through its \<^verbatim>\<open>map\<close>; the children of a node start from \<^verbatim>\<open>{}\<close>.
\<close>

fun regenerateIds ::
  "EditableNode list \<Rightarrow> string \<Rightarrow> (string \<rightharpoonup> js_index) \<Rightarrow> EditableNode list" where
  "regenerateIds [] parentPath siblingCounts = []"
| "regenerateIds (EditableNode i p name v attributes t ch # nodes) parentPath siblingCounts =
     (let count = next_count siblingCounts name;
          currentPath = (if parentPath \<noteq> [] then parentPath @ ''.'' @ segment name count
                         else segment name count)
      in EditableNode currentPath currentPath name v attributes t
           (regenerateIds ch currentPath Map.empty) #
         regenerateIds nodes parentPath (set_count siblingCounts name count))"

subsection \<open>\<^verbatim>\<open>duplicatePath\<close>\<close>










text \<open>
  An element of a sibling list and the element that the editor's tree gives back for
  it: the same path, the same entries, and as children the elements that the tree
  gives back for the children.
\<close>

definition sim :: "string list \<times> Element \<Rightarrow> string list \<times> Element \<Rightarrow> bool" where
  "sim x y =
     (fst y = fst x \<and>
      (\<forall>ps. entries ps (snd y) = entries ps (snd x)) \<and>
      (\<exists>pa pp. element_children (snd y) =
         buildXmlFromEditable (buildEditableTree_each (element_children (snd x)) pa pp Map.empty)))"

text \<open>A node with the name \<^verbatim>\<open>unnamed\<close> written out where the name is missing.\<close>

fun unnamed_written :: "Element \<Rightarrow> Element" where
  "unnamed_written (Element t n a tx cd es) =
     Element t (case n of None \<Rightarrow> Some ''unnamed'' | Some m \<Rightarrow> Some m) a tx cd es"

text \<open>The counter of a name is a number, if the table has one.\<close>

definition numeric_count :: "(string \<rightharpoonup> js_index) \<Rightarrow> string \<Rightarrow> bool" where
  "numeric_count sc name = (case sc name of None \<Rightarrow> True | Some (Num c) \<Rightarrow> True | Some (Str s) \<Rightarrow> False)"

definition count_value :: "(string \<rightharpoonup> js_index) \<Rightarrow> string \<Rightarrow> nat" where
  "count_value sc name = (case sc name of Some (Num c) \<Rightarrow> c | _ \<Rightarrow> 0)"

section \<open>Reading the messages of a request\<close>

text \<open>Intermediate estimates that lie between two bounds.\<close>

definition scan_ok :: "int \<Rightarrow> int \<Rightarrow> (int \<times> progress_message) list \<Rightarrow> bool" where
  "scan_ok lo hi extra =
     list_all (\<lambda>(pc, m). m = ScanningElements \<and> lo \<le> pc \<and> pc \<le> hi) extra"

fun percent_of :: "WorkerResponse \<Rightarrow> int option" where
  "percent_of (Progress ph p m) = Some p"
| "percent_of (Done ds st) = None"
| "percent_of (Failed le re) = None"

fun phase_of :: "WorkerResponse \<Rightarrow> phase option" where
  "phase_of (Progress ph p m) = Some ph"
| "phase_of (Done ds st) = None"
| "phase_of (Failed le re) = None"

fun is_estimate :: "WorkerResponse \<Rightarrow> bool" where
  "is_estimate (Progress ph p m) = (m = ScanningElements)"
| "is_estimate (Done ds st) = False"
| "is_estimate (Failed le re) = False"

fun is_done :: "WorkerResponse \<Rightarrow> bool" where
  "is_done (Done ds st) = True"
| "is_done (Progress ph p m) = False"
| "is_done (Failed le re) = False"

definition percents :: "WorkerResponse list \<Rightarrow> int list" where
  "percents msgs = List.map_filter percent_of msgs"

fun phase_rank :: "phase \<Rightarrow> nat" where
  "phase_rank PhaseLeft = 0"
| "phase_rank PhaseRight = 1"
| "phase_rank PhaseDiff = 2"

fun phase_low :: "phase \<Rightarrow> int" where
  "phase_low PhaseLeft = 0"
| "phase_low PhaseRight = 45"
| "phase_low PhaseDiff = 92"

fun phase_high :: "phase \<Rightarrow> int" where
  "phase_high PhaseLeft = 45"
| "phase_high PhaseRight = 90"
| "phase_high PhaseDiff = 99"

fun in_phase_range :: "WorkerResponse \<Rightarrow> bool" where
  "in_phase_range (Progress ph p m) = (phase_low ph \<le> p \<and> p \<le> phase_high ph)"
| "in_phase_range (Done ds st) = True"
| "in_phase_range (Failed le re) = True"

section \<open>Example documents\<close>

text \<open>
  The progress estimate in exact arithmetic: \<^verbatim>\<open>Math.round\<close> is the floor of its
  argument plus one half. The floating-point value agrees with it unless the exact
  value is within rounding error of a half.
\<close>

definition exact_estimate :: estimate where
  "exact_estimate base span processed stack_length =
     (let d = int processed + int stack_length + 1
      in (2 * (base * d + span * int processed) + d) div (2 * d))"

text \<open>A text node, a CDATA section and an element, as the parser returns them.\<close>

definition cdata_node :: "string \<Rightarrow> Element" where
  "cdata_node s = Element TCdata None None None (Some s) None"

definition text_node :: "string \<Rightarrow> Element" where
  "text_node s = Element TText None None (Some s) None None"

definition element_node :: "string \<Rightarrow> (string \<times> string) list option \<Rightarrow> Element list \<Rightarrow> Element" where
  "element_node n attrs es = Element TElement (Some n) attrs None None (Some es)"

text \<open>\<^verbatim>\<open><a x="1"> hi <b>1</b><b>2</b></a>\<close>.\<close>

definition example_doc :: "Element list" where
  "example_doc =
     [element_node ''a'' (Some [(''x'', ''1'')])
        [text_node '' hi '', element_node ''b'' None [text_node ''1''],
         element_node ''b'' None [text_node ''2'']]]"

text \<open>\<^verbatim>\<open><a><b>1</b><b>2</b></a>\<close> and \<^verbatim>\<open><a><b>1</b><b>3</b></a>\<close>.\<close>

definition example_left :: "Element list" where
  "example_left =
     [element_node ''a'' None
        [element_node ''b'' None [text_node ''1''], element_node ''b'' None [text_node ''2'']]]"

definition example_right :: "Element list" where
  "example_right =
     [element_node ''a'' None
        [element_node ''b'' None [text_node ''1''], element_node ''b'' None [text_node ''3'']]]"

text \<open>
  A parser for the examples: it knows the two documents above and reports every other
  text as malformed.
\<close>

definition example_xml2js :: "string \<Rightarrow> string + Element list option" where
  "example_xml2js xml =
     (if xml = ''<a><b>1</b><b>2</b></a>'' then Inr (Some example_left)
      else if xml = ''<a><b>1</b><b>3</b></a>'' then Inr (Some example_right)
      else Inl ''Unclosed root tag'')"

definition left_opts :: opts where
  "left_opts = \<lparr>opt_phase = PhaseLeft, basePercent = 0, spanPercent = 45\<rparr>"

definition right_opts :: opts where
  "right_opts = \<lparr>opt_phase = PhaseRight, basePercent = 45, spanPercent = 45\<rparr>"

text \<open>
  A root with 249 childless children, then 50 children that have one child each, then
  200 childless children; its text; and a parser that knows it.
\<close>

definition leaf_b :: Element where
  "leaf_b = Element TElement (Some ''b'') None None None None"

definition parent_b :: Element where
  "parent_b = Element TElement (Some ''b'') None None None (Some [leaf_b])"

definition big_doc :: "Element list" where
  "big_doc =
     [Element TElement (Some ''r'') None None None
        (Some (replicate 249 leaf_b @ replicate 50 parent_b @ replicate 200 leaf_b))]"

definition big_xml :: string where
  "big_xml =
     ''<r>'' @ concat (replicate 249 ''<b/>'') @ concat (replicate 50 ''<b><b/></b>'') @
     concat (replicate 200 ''<b/>'') @ ''</r>''"

definition big_xml2js :: "string \<Rightarrow> string + Element list option" where
  "big_xml2js xml = (if xml = big_xml then Inr (Some big_doc) else example_xml2js xml)"

text \<open>
  \<^verbatim>\<open><a><__proto__ x="1"/><__proto__ x="2"/></a>\<close>: two siblings whose name is a
  property that a plain object inherits.
\<close>

definition proto_doc :: "Element list" where
  "proto_doc =
     [element_node ''a'' None
        [Element TElement (Some ''__proto__'') (Some [(''x'', ''1'')]) None None None,
         Element TElement (Some ''__proto__'') (Some [(''x'', ''2'')]) None None None]]"

text \<open>\<^verbatim>\<open><a>x<![CDATA[ y ]]>z</a>\<close>.\<close>

definition cdata_doc :: "Element list" where
  "cdata_doc = [element_node ''a'' None [text_node ''x'', cdata_node '' y '', text_node ''z'']]"



definition unnamed_doc :: "Element list" where
  "unnamed_doc =
     [element_node ''unnamed'' (Some [(''k'', ''1'')]) [],
      Element TElement None (Some [(''k'', ''2'')]) None None None,
      element_node ''unnamed'' (Some [(''k'', ''3'')]) []]"

text \<open>A tree whose identifiers are out of date: the first of three siblings was deleted.\<close>

definition stale_tree :: "EditableNode list" where
  "stale_tree =
     [EditableNode ''a[1]'' ''a[1]'' ''a'' [] [] True
        [EditableNode ''a[1].b[2]'' ''a[1].b[2]'' ''b'' [] [] True [],
         EditableNode ''a[1].b[3]'' ''a[1].b[3]'' ''b'' [] [] True []]]"



section \<open>Properties of the diff engine\<close>

lemma set_new_Set_aux: "set (foldl Set_add s xs) = set s \<union> set xs"
  by (induction xs arbitrary: s) (auto simp: Set_add_def)

lemma distinct_new_Set_aux: "distinct s \<Longrightarrow> distinct (foldl Set_add s xs)"
  by (induction xs arbitrary: s) (auto simp: Set_add_def)

lemma set_new_Set: "set (new_Set xs) = set xs"
  by (simp add: new_Set_def set_new_Set_aux)

lemma distinct_new_Set: "distinct (new_Set xs)"
  by (simp add: new_Set_def distinct_new_Set_aux)

lemma mset_insert_by: "mset (insert_by cmp x ys) = add_mset x (mset ys)"
  by (induction ys) auto

lemma mset_sort_by: "mset (sort_by cmp xs) = mset xs"
  by (induction xs) (auto simp: sort_by_def mset_insert_by)

lemma set_sort_by: "set (sort_by cmp xs) = set xs"
  using mset_sort_by [of cmp xs] by (metis set_mset_mset)

lemma filter_sort_by_single:
  assumes "length (filter P xs) \<le> 1"
  shows "filter P (sort_by cmp xs) = filter P xs"
proof -
  have m: "mset (filter P (sort_by cmp xs)) = mset (filter P xs)"
    by (simp add: mset_sort_by)
  show ?thesis
  proof (cases "filter P xs")
    case Nil
    with m show ?thesis by simp
  next
    case (Cons a as)
    with assms have "as = []" by simp
    with m Cons have "mset (filter P (sort_by cmp xs)) = {#a#}" by simp
    then have "filter P (sort_by cmp xs) = [a]" by (metis mset_single_iff_right mset.simps(1) mset_zero_iff add_mset_eq_single mset.simps(2) list.exhaust)
    with Cons \<open>as = []\<close> show ?thesis by simp
  qed
qed

lemma length_filter_sort_by: "length (filter P (sort_by cmp xs)) = length (filter P xs)"
proof -
  have "mset (filter P (sort_by cmp xs)) = mset (filter P xs)"
    by (simp add: mset_sort_by)
  then show ?thesis by (metis size_mset)
qed

lemma diff_key_fold:
  assumes "set ks \<subseteq> fst ` set left \<union> fst ` set right"
  shows "foldl (diff_key left right) (ds, st) ks =
     (ds @ concat (map (record_for left right) ks),
      (\<lambda>k. st k + length (filter (\<lambda>d. change d = k) (concat (map (record_for left right) ks)))))"
  using assms
proof (induction ks arbitrary: ds st)
  case Nil
  then show ?case by simp
next
  case (Cons k ks)
  have "k \<in> fst ` set left \<or> k \<in> fst ` set right" using Cons.prems by auto
  then have nn: "map_of left k \<noteq> None \<or> map_of right k \<noteq> None"
    by (metis map_of_eq_None_iff)
  have step: "diff_key left right (ds, st) k =
     (ds @ record_for left right k,
      (\<lambda>c. st c + length (filter (\<lambda>d. change d = c) (record_for left right k))))"
    using nn by (auto simp: diff_key_def record_for_def fun_eq_iff split: option.splits)
  show ?case using Cons.prems
    by (simp add: step Cons.IH fun_eq_iff)
qed

lemma path_record_for: "d \<in> set (record_for left right k) \<Longrightarrow> path d = k"
  by (auto simp: record_for_def split: option.splits if_splits)

lemma length_record_for: "length (record_for left right k) \<le> 1"
  by (auto simp: record_for_def split: option.splits)

lemma filter_concat_record_for:
  "distinct ks \<Longrightarrow> filter (\<lambda>d. path d = key) (concat (map (record_for left right) ks)) =
     (if key \<in> set ks then record_for left right key else [])"
proof (induction ks)
  case Nil
  then show ?case by simp
next
  case (Cons k ks)
  have a: "filter (\<lambda>d. path d = key) (record_for left right k) =
      (if k = key then record_for left right k else [])"
    by (auto simp: filter_empty_conv filter_id_conv dest: path_record_for)
  show ?case using Cons by (auto simp: a)
qed

lemma record_for_absent:
  "key \<notin> fst ` set left \<union> fst ` set right \<Longrightarrow> record_for left right key = []"
proof -
  assume "key \<notin> fst ` set left \<union> fst ` set right"
  then have "map_of left key = None" "map_of right key = None"
    by (simp_all add: map_of_eq_None_iff)
  then show ?thesis by (simp add: record_for_def)
qed

lemma diffMaps_eq:
  "diffMaps cmp left right =
    (sort_by (\<lambda>a b. cmp (path a) (path b))
       (concat (map (record_for left right) (new_Set (map fst left @ map fst right)))),
     \<lambda>k. length (filter (\<lambda>d. change d = k)
       (concat (map (record_for left right) (new_Set (map fst left @ map fst right))))))"
  unfolding diffMaps_def Let_def
  by (subst diff_key_fold) (auto simp: set_new_Set)

text \<open>
  Claim C1. For every pair of flat mappings, the records of \<open>diffMaps\<close> with a given
  key are exactly those the classification rule dictates: one \<open>Removed\<close> record with the
  left value when the key is absent in right, one \<open>Added\<close> record with the right value
  when it is absent in left, one \<open>Changed\<close> record with both values when they differ,
  and none when the values are equal (or the key is in neither mapping). Each of the
  three stats is the number of records of that kind in the output.
\<close>

theorem diffMaps_classification:
  "(\<forall>key. filter (\<lambda>d. path d = key) (fst (diffMaps localeCompare left right)) =
      (case (map_of left key, map_of right key) of
        (Some l, None) \<Rightarrow> [\<lparr>path = key, leftValue = Some l, rightValue = None, change = Removed\<rparr>]
      | (None, Some r) \<Rightarrow> [\<lparr>path = key, leftValue = None, rightValue = Some r, change = Added\<rparr>]
      | (Some l, Some r) \<Rightarrow>
          (if l \<noteq> r
           then [\<lparr>path = key, leftValue = Some l, rightValue = Some r, change = Changed\<rparr>]
           else [])
      | (None, None) \<Rightarrow> [])) \<and>
   (\<forall>kind. snd (diffMaps localeCompare left right) kind =
      length (filter (\<lambda>d. change d = kind) (fst (diffMaps localeCompare left right))))"
proof (intro conjI allI)
  fix key
  let ?ks = "new_Set (map fst left @ map fst right)"
  let ?pre = "concat (map (record_for left right) ?ks)"
  have f: "filter (\<lambda>d. path d = key) ?pre = record_for left right key"
    using record_for_absent [of key left right]
    by (simp add: filter_concat_record_for distinct_new_Set set_new_Set)
  have "length (filter (\<lambda>d. path d = key) ?pre) \<le> 1"
    using length_record_for [of left right key] by (simp add: f)
  then have "filter (\<lambda>d. path d = key) (fst (diffMaps localeCompare left right)) = record_for left right key"
    by (simp add: diffMaps_eq filter_sort_by_single f)
  then show "filter (\<lambda>d. path d = key) (fst (diffMaps localeCompare left right)) =
      (case (map_of left key, map_of right key) of
        (Some l, None) \<Rightarrow> [\<lparr>path = key, leftValue = Some l, rightValue = None, change = Removed\<rparr>]
      | (None, Some r) \<Rightarrow> [\<lparr>path = key, leftValue = None, rightValue = Some r, change = Added\<rparr>]
      | (Some l, Some r) \<Rightarrow>
          (if l \<noteq> r
           then [\<lparr>path = key, leftValue = Some l, rightValue = Some r, change = Changed\<rparr>]
           else [])
      | (None, None) \<Rightarrow> [])"
    by (simp add: record_for_def)
next
  fix kind
  show "snd (diffMaps localeCompare left right) kind =
      length (filter (\<lambda>d. change d = kind) (fst (diffMaps localeCompare left right)))"
    by (simp add: diffMaps_eq length_filter_sort_by)
qed


lemma set_insert_by: "set (insert_by cmp x ys) = insert x (set ys)"
  by (induction ys) auto

lemma sorted_insert_by:
  assumes trans: "\<And>a b c. cmp a b \<le> 0 \<Longrightarrow> cmp b c \<le> 0 \<Longrightarrow> cmp a c \<le> 0"
    and total: "\<And>a b. cmp a b \<le> 0 \<or> cmp b a \<le> 0"
  shows "sorted_wrt (\<lambda>a b. cmp a b \<le> 0) ys \<Longrightarrow> sorted_wrt (\<lambda>a b. cmp a b \<le> 0) (insert_by cmp x ys)"
proof (induction ys)
  case Nil
  then show ?case by simp
next
  case (Cons y ys)
  show ?case
  proof (cases "cmp x y \<le> 0")
    case True
    then have "\<forall>z\<in>set ys. cmp x z \<le> 0" using Cons.prems trans by auto
    with True Cons.prems show ?thesis by simp
  next
    case False
    then have "cmp y x \<le> 0" using total [of x y] by simp
    with False Cons show ?thesis by (auto simp: set_insert_by)
  qed
qed

lemma sorted_sort_by:
  assumes trans: "\<And>a b c. cmp a b \<le> 0 \<Longrightarrow> cmp b c \<le> 0 \<Longrightarrow> cmp a c \<le> 0"
    and total: "\<And>a b. cmp a b \<le> 0 \<or> cmp b a \<le> 0"
  shows "sorted_wrt (\<lambda>a b. cmp a b \<le> 0) (sort_by cmp xs)"
proof (induction xs)
  case Nil
  then show ?case by (simp add: sort_by_def)
next
  case (Cons x xs)
  have "sort_by cmp (x # xs) = insert_by cmp x (sort_by cmp xs)" by (simp add: sort_by_def)
  with Cons show ?case using sorted_insert_by [of cmp, OF trans total] by simp
qed

lemma distinct_paths_concat:
  "distinct ks \<Longrightarrow> distinct (map path (concat (map (record_for left right) ks)))"
proof (induction ks)
  case Nil
  then show ?case by simp
next
  case (Cons k ks)
  have one: "distinct (map path (record_for left right k))"
    by (auto simp: record_for_def split: option.splits)
  have "\<And>d e. d \<in> set (record_for left right k) \<Longrightarrow> e \<in> set (concat (map (record_for left right) ks))
      \<Longrightarrow> path d \<noteq> path e"
    using Cons.prems by (auto dest!: path_record_for)
  with one Cons show ?case by auto
qed

lemma distinct_paths_diffMaps: "distinct (map path (fst (diffMaps cmp left right)))"
proof -
  let ?pre = "concat (map (record_for left right) (new_Set (map fst left @ map fst right)))"
  have "mset (map path (fst (diffMaps cmp left right))) = mset (map path ?pre)"
    by (simp add: diffMaps_eq mset_sort_by)
  moreover have "distinct (map path ?pre)"
    by (simp add: distinct_paths_concat distinct_new_Set)
  ultimately show ?thesis by (metis mset_eq_imp_distinct_iff)
qed

lemma filter_insert_by:
  assumes "\<And>a b. P a \<Longrightarrow> P b \<Longrightarrow> c a b \<le> 0"
  shows "filter P (insert_by c x ys) = filter P (x # ys)"
proof (induction ys)
  case Nil
  then show ?case by simp
next
  case (Cons y ys)
  show ?case
  proof (cases "c x y \<le> 0")
    case True
    then show ?thesis by simp
  next
    case False
    then have "\<not> (P x \<and> P y)" using assms by blast
    with False Cons show ?thesis by auto
  qed
qed

lemma filter_sort_by:
  assumes "\<And>a b. P a \<Longrightarrow> P b \<Longrightarrow> c a b \<le> 0"
  shows "filter P (sort_by c xs) = filter P xs"
proof (induction xs)
  case Nil
  then show ?case by (simp add: sort_by_def)
next
  case (Cons x xs)
  have "sort_by c (x # xs) = insert_by c x (sort_by c xs)" by (simp add: sort_by_def)
  then show ?case using Cons by (simp add: filter_insert_by [of P c, OF assms])
qed

lemma sort_by_zero: "sort_by (\<lambda>a b. 0) xs = xs"
proof (induction xs)
  case Nil
  then show ?case by (simp add: sort_by_def)
next
  case (Cons x xs)
  have "sort_by (\<lambda>a b. 0) (x # xs) = insert_by (\<lambda>a b. 0) x (sort_by (\<lambda>a b. 0) xs)"
    by (simp add: sort_by_def)
  with Cons show ?case by (cases xs) simp_all
qed

text \<open>
  Claim C7, amended. When the comparison is a total preorder (transitive and total),
  the records returned by \<open>diffMaps\<close> are in non-decreasing order of their keys under
  the comparison, no two of them share a key, and the sort is stable: the records whose
  keys tie with a given key are in the order in which \<open>diffMaps\<close> produced them, which is
  the order of the result under the comparison that is constantly 0. Records with
  different keys may tie.
\<close>

theorem diffMaps_sorted_stable:
  assumes trans: "\<And>a b c. localeCompare a b \<le> 0 \<Longrightarrow> localeCompare b c \<le> 0 \<Longrightarrow> localeCompare a c \<le> 0"
    and total: "\<And>a b. localeCompare a b \<le> 0 \<or> localeCompare b a \<le> 0"
  shows "sorted_wrt (\<lambda>a b. localeCompare (path a) (path b) \<le> 0) (fst (diffMaps localeCompare left right)) \<and>
     distinct (map path (fst (diffMaps localeCompare left right))) \<and>
     (\<forall>k. filter (\<lambda>d. localeCompare (path d) k \<le> 0 \<and> localeCompare k (path d) \<le> 0)
            (fst (diffMaps localeCompare left right)) =
          filter (\<lambda>d. localeCompare (path d) k \<le> 0 \<and> localeCompare k (path d) \<le> 0)
            (fst (diffMaps (\<lambda>a b. 0) left right)))"
proof -
  let ?ds = "fst (diffMaps localeCompare left right)"
  have s: "sorted_wrt (\<lambda>a b. localeCompare (path a) (path b) \<le> 0) ?ds"
    unfolding diffMaps_eq fst_conv
    by (rule sorted_sort_by) (blast intro: trans, rule total)
  have d: "distinct (map path ?ds)" by (rule distinct_paths_diffMaps)
  have "filter (\<lambda>d. localeCompare (path d) k \<le> 0 \<and> localeCompare k (path d) \<le> 0) ?ds =
      filter (\<lambda>d. localeCompare (path d) k \<le> 0 \<and> localeCompare k (path d) \<le> 0)
        (fst (diffMaps (\<lambda>a b. 0) left right))" for k
    unfolding diffMaps_eq fst_conv sort_by_zero
    by (rule filter_sort_by) (blast intro: trans)
  with s d show ?thesis by blast
qed

lemma compare_codes_trans: "compare_codes a b \<le> 0 \<Longrightarrow> compare_codes b c \<le> 0 \<Longrightarrow> compare_codes a c \<le> 0"
  by (auto simp: compare_codes_def split: if_splits)

lemma compare_codes_total: "compare_codes a b \<le> 0 \<or> compare_codes b a \<le> 0"
  by (auto simp: compare_codes_def)

lemma compare_ignoring_trans:
  "compare_ignoring a b \<le> 0 \<Longrightarrow> compare_ignoring b c \<le> 0 \<Longrightarrow> compare_ignoring a c \<le> 0"
  unfolding compare_ignoring_def by (rule compare_codes_trans)

lemma compare_ignoring_total: "compare_ignoring a b \<le> 0 \<or> compare_ignoring b a \<le> 0"
  unfolding compare_ignoring_def by (rule compare_codes_total)

lemma diffMaps_tie_example:
  "fst (diffMaps compare_ignoring tie_left tie_right) =
     [\<lparr>path = ''a[1]/@j'', leftValue = Some ''0'', rightValue = None, change = Removed\<rparr>,
      \<lparr>path = key_plain, leftValue = Some ''1'', rightValue = None, change = Removed\<rparr>,
      \<lparr>path = key_soft_hyphen, leftValue = None, rightValue = Some ''2'', change = Added\<rparr>]"
  by (simp add: diffMaps_def new_Set_def Set_add_def diff_key_def sort_by_def tie_left_def
      tie_right_def key_plain_def key_soft_hyphen_def compare_ignoring_def compare_codes_def
      ignorable_def)

lemma compare_ignoring_tie: "compare_ignoring key_plain key_soft_hyphen = 0"
  by (simp add: key_plain_def key_soft_hyphen_def compare_ignoring_def compare_codes_def
      ignorable_def)

lemma keys_differ: "key_plain \<noteq> key_soft_hyphen"
  by (simp add: key_plain_def key_soft_hyphen_def)

text \<open>
  Claim C7 as stated fails: under a comparison that ignores the soft hyphen, two
  records with different keys tie, so the order of the result is not strict.
\<close>

theorem diffMaps_sorted_ties:
  "compare_ignoring key_plain key_soft_hyphen = 0 \<and>
   key_plain \<noteq> key_soft_hyphen \<and>
   map path (fst (diffMaps compare_ignoring tie_left tie_right)) =
     [''a[1]/@j'', key_plain, key_soft_hyphen] \<and>
   \<not> sorted_wrt (\<lambda>a b. compare_ignoring (path a) (path b) < 0)
       (fst (diffMaps compare_ignoring tie_left tie_right))"
  by (simp add: diffMaps_tie_example compare_ignoring_tie keys_differ)

theorem diffMaps_sorted_stable_witness:
  "sorted_wrt (\<lambda>a b. compare_ignoring (path a) (path b) \<le> 0)
     (fst (diffMaps compare_ignoring tie_left tie_right)) \<and>
   map path (fst (diffMaps compare_ignoring tie_left tie_right)) =
     [''a[1]/@j'', key_plain, key_soft_hyphen]"
proof -
  have "sorted_wrt (\<lambda>a b. compare_ignoring (path a) (path b) \<le> 0)
     (fst (diffMaps compare_ignoring tie_left tie_right))"
    by (rule diffMaps_sorted_stable [THEN conjunct1])
      (erule compare_ignoring_trans, assumption, rule compare_ignoring_total)
  moreover have "map path (fst (diffMaps compare_ignoring tie_left tie_right)) =
     [''a[1]/@j'', key_plain, key_soft_hyphen]"
    by (simp add: diffMaps_tie_example)
  ultimately show ?thesis by blast
qed

theorem diffMaps_classification_witness:
  "filter (\<lambda>d. path d = ''a[1].b[2]/#text'') (fst (diffMaps compare_codes
      [(''a[1].b[1]/#text'', ''1''), (''a[1].b[2]/#text'', ''2''), (''a[1]/@x'', ''u'')]
      [(''a[1].c[1]/@y'', ''v''), (''a[1].b[2]/#text'', ''3''), (''a[1].b[1]/#text'', ''1'')]))
    = [\<lparr>path = ''a[1].b[2]/#text'', leftValue = Some ''2'', rightValue = Some ''3'', change = Changed\<rparr>] \<and>
   snd (diffMaps compare_codes
      [(''a[1].b[1]/#text'', ''1''), (''a[1].b[2]/#text'', ''2''), (''a[1]/@x'', ''u'')]
      [(''a[1].c[1]/@y'', ''v''), (''a[1].b[2]/#text'', ''3''), (''a[1].b[1]/#text'', ''1'')]) Removed = 1"
  using diffMaps_classification [of compare_codes
      "[(''a[1].b[1]/#text'', ''1''), (''a[1].b[2]/#text'', ''2''), (''a[1]/@x'', ''u'')]"
      "[(''a[1].c[1]/@y'', ''v''), (''a[1].b[2]/#text'', ''3''), (''a[1].b[1]/#text'', ''1'')]"]
  by (simp add: diffMaps_def new_Set_def Set_add_def diff_key_def sort_by_def compare_codes_def)

section \<open>Strings, numbers and segments\<close>

lemma extractText_fold:
  "foldl (\<lambda>out node. if el_type node = TText \<or> el_type node = TCdata
            then out @ (case el_text node of None \<Rightarrow> [] | Some t \<Rightarrow> t) else out) acc ns =
   acc @ concat (map (\<lambda>n. case el_text n of None \<Rightarrow> [] | Some t \<Rightarrow> t)
       (filter (\<lambda>n. el_type n = TText \<or> el_type n = TCdata) ns))"
  by (induction ns arbitrary: acc) auto

lemma extractText_Some: "extractText (Some ns) = direct_text ns"
  by (simp add: extractText_def direct_text_def extractText_fold)

lemma trim_Nil: "trim [] = []"
  by (simp add: trim_def)

lemma trim_idem: "trim (trim s) = trim s"
proof -
  let ?u = "dropWhile is_space s"
  let ?t = "rev (dropWhile is_space (rev ?u))"
  have "dropWhile is_space ?t = ?t"
  proof (cases "?t = []")
    case True
    then show ?thesis by (metis dropWhile.simps(1))
  next
    case False
    have u: "?u = ?t @ rev (takeWhile is_space (rev ?u))"
      by (metis rev_append rev_rev_ident takeWhile_dropWhile_id)
    from False have "?u \<noteq> []" by (metis dropWhile.simps(1) rev.simps(1))
    then have "\<not> is_space (hd ?u)" by (rule hd_dropWhile)
    moreover have "hd ?u = hd ?t" using u False by (metis hd_append2)
    ultimately show ?thesis by (simp add: dropWhile_eq_self_iff)
  qed
  then show ?thesis by (simp add: trim_def)
qed

lemma digit_char_in: "d < 10 \<Longrightarrow> digit_char d \<in> set ''0123456789''"
  unfolding digit_char_def by (rule nth_mem) simp

lemma show_nat_digits: "set (show_nat n) \<subseteq> set ''0123456789''"
proof (induction n rule: show_nat.induct)
  case (1 n)
  show ?case
  proof (cases "n < 10")
    case True
    then show ?thesis using digit_char_in [of n] by (simp add: show_nat.simps [of n])
  next
    case False
    then show ?thesis using 1 digit_char_in [of "n mod 10"]
      by (simp add: show_nat.simps [of n])
  qed
qed

lemma show_nat_not_Nil: "show_nat n \<noteq> []"
  by (simp add: show_nat.simps [of n])

lemma digit_char_inj: "d < 10 \<Longrightarrow> e < 10 \<Longrightarrow> digit_char d = digit_char e \<Longrightarrow> d = e"
proof -
  assume a: "d < 10" "e < 10" "digit_char d = digit_char e"
  have "distinct ''0123456789''" by simp
  with a show ?thesis
    by (simp add: digit_char_def nth_eq_iff_index_eq)
qed

lemma show_nat_inj: "show_nat n = show_nat m \<Longrightarrow> n = m"
proof (induction n arbitrary: m rule: show_nat.induct)
  case (1 n)
  show ?case
  proof (cases "n < 10")
    case True
    then have "length (show_nat m) = 1" using 1(2) [symmetric] by (simp add: show_nat.simps [of n])
    then have "m < 10" using show_nat_not_Nil [of "m div 10"]
      by (auto simp: show_nat.simps [of m] split: if_splits)
    with True 1(2) show ?thesis
      by (simp add: show_nat.simps [of n] show_nat.simps [of m] digit_char_inj)
  next
    case False
    have "\<not> m < 10"
    proof
      assume "m < 10"
      then have "length (show_nat n) = 1" using 1(2) by (simp add: show_nat.simps [of m])
      with False show False using show_nat_not_Nil [of "n div 10"]
        by (auto simp: show_nat.simps [of n])
    qed
    with False 1(2) have "show_nat (n div 10) = show_nat (m div 10)"
      and "digit_char (n mod 10) = digit_char (m mod 10)"
      by (simp_all add: show_nat.simps [of n] show_nat.simps [of m])
    then have "n div 10 = m div 10" and "n mod 10 = m mod 10"
      using 1(1) [OF False] by (simp_all add: digit_char_inj)
    then show ?thesis by (metis div_mult_mod_eq)
  qed
qed

lemma segment_Num_inj: "segment n (Num i) = segment n (Num j) \<Longrightarrow> i = j"
  by (simp add: segment_def show_nat_inj)

section \<open>The loop and the writes of the document\<close>

lemma apply_writes_append: "apply_writes c (xs @ ys) = apply_writes (apply_writes c xs) ys"
  by (simp add: apply_writes_def)

lemma apply_writes_Nil: "apply_writes c [] = c"
  by (simp add: apply_writes_def)

lemma write_attributes_eq:
  "write_attributes ps attrs c = apply_writes c (map (\<lambda>(a, v). (ps @ ''/@'' @ a, v)) attrs)"
  unfolding write_attributes_def apply_writes_def
  by (induction attrs arbitrary: c) (auto split: prod.splits)

lemma collector_visit_element:
  "collector (visit_element est o' p i el st) =
     apply_writes (collector st) (entries (join_dot (p @ [segment (element_name el) i])) el)"
  by (simp add: visit_element_def Let_def entries_def write_attributes_eq apply_writes_append
      apply_writes_Nil apply_writes_def split: option.splits)

lemma stack_visit_element:
  "stack (visit_element est o' p i el st) =
     (if element_children el \<noteq> []
      then [(Some (element_children el), p @ [segment (element_name el) i])] else []) @ stack st"
  by (simp add: visit_element_def Let_def element_children_def split: option.splits)

lemma for_elements_collector_stack:
  "collector (for_elements est o' p els sc st) =
      apply_writes (collector st)
        (concat (map (\<lambda>(cp, el). entries (join_dot cp) el) (indexed p sc els))) \<and>
   stack (for_elements est o' p els sc st) = rev (pushed (indexed p sc els)) @ stack st"
proof (induction els arbitrary: sc st)
  case Nil
  then show ?case by (simp add: apply_writes_Nil pushed_def)
next
  case (Cons el els)
  show ?case
  proof (cases "el_type el = TElement")
    case False
    with Cons.IH [of sc st] show ?thesis by simp
  next
    case True
    then show ?thesis
      by (simp add: Let_def Cons.IH collector_visit_element stack_visit_element
          apply_writes_append pushed_def del: fun_upd_apply)
  qed
qed

lemma visited_Nil: "visited p [] = []"
  by (simp add: visited.simps [of p "[]"])

lemma writes_Nil: "writes p [] = []"
  by (simp add: writes_def visited_Nil)

lemma writes_unfold:
  "writes p els =
     concat (map (\<lambda>(cp, el). entries (join_dot cp) el) (indexed p Map.empty els)) @
     concat (map (\<lambda>(cp, el). writes cp (element_children el)) (rev (indexed p Map.empty els)))"
proof -
  have "concat (map (\<lambda>(cp, el). entries (join_dot cp) el)
          (concat (map (\<lambda>(cp, el). visited cp (element_children el)) ixs))) =
        concat (map (\<lambda>(cp, el). writes cp (element_children el)) ixs)" for ixs
    by (induction ixs) (auto simp: writes_def)
  then show ?thesis
    by (simp add: writes_def visited.simps [of p els])
qed

lemma item_writes_None: "item_writes (None, p) = []"
  by (simp add: item_writes_def writes_Nil)

lemma item_writes_Some: "item_writes (Some els, p) = writes p els"
  by (simp add: item_writes_def)

lemma concat_item_writes_pushed:
  "concat (map item_writes (rev (pushed ixs))) =
     concat (map (\<lambda>(cp, el). writes cp (element_children el)) (rev ixs))"
proof (induction ixs)
  case Nil
  then show ?case by (simp add: pushed_def)
next
  case (Cons x xs)
  obtain cp el where x: "x = (cp, el)" by (cases x)
  show ?case using Cons
    by (auto simp: pushed_def x item_writes_Some writes_Nil)
qed

lemma collector_flatten_loop:
  "collector (flatten_loop est o' st) =
     apply_writes (collector st) (concat (map item_writes (stack st)))"
proof (induction est o' st rule: flatten_loop.induct)
  case (1 est o' st)
  show ?case
  proof (cases "stack st")
    case Nil
    then show ?thesis by (simp add: flatten_loop.simps [of est o' st] apply_writes_Nil)
  next
    case (Cons item rest)
    obtain elements item_path where item: "item = (elements, item_path)" by (cases item)
    show ?thesis
    proof (cases elements)
      case None
      have "collector (flatten_loop est o' st) = collector (flatten_loop est o' (st\<lparr>stack := rest\<rparr>))"
        using Cons item None by (simp add: flatten_loop.simps [of est o' st])
      also have "\<dots> = apply_writes (collector st) (concat (map item_writes rest))"
        using "1.IH"(1) [OF Cons item [symmetric] None] by simp
      finally show ?thesis using Cons item None by (simp add: item_writes_None)
    next
      case (Some els)
      let ?st = "for_elements est o' item_path els Map.empty (st\<lparr>stack := rest\<rparr>)"
      have "collector (flatten_loop est o' st) = collector (flatten_loop est o' ?st)"
        using Cons item Some by (simp add: flatten_loop.simps [of est o' st])
      also have "\<dots> = apply_writes (collector ?st) (concat (map item_writes (stack ?st)))"
        using "1.IH"(2) [OF Cons item [symmetric] Some] by simp
      also have "\<dots> = apply_writes (collector st) (writes item_path els @ concat (map item_writes rest))"
        by (simp add: for_elements_collector_stack concat_item_writes_pushed
            apply_writes_append [symmetric] writes_unfold [of item_path els])
      finally show ?thesis using Cons item Some by (simp add: item_writes_Some)
    qed
  qed
qed

lemma map_flatten_parsed:
  "map' (fst (flatten_parsed est o' rootElements)) =
     apply_writes [] (writes [] (case rootElements of None \<Rightarrow> [] | Some els \<Rightarrow> els))"
proof -
  have "collector (flatten_loop est o' \<lparr>collector = [], stack = [(rootElements, [])], processedElements = 0,
      lastEmit = 0, posted = [(basePercent o', ParsingXML)]\<rparr>) =
    apply_writes [] (item_writes (rootElements, []))"
    by (simp add: collector_flatten_loop)
  then show ?thesis
    by (cases rootElements) (simp_all add: flatten_parsed_def Let_def item_writes_None item_writes_Some writes_Nil)
qed

section \<open>Progress messages\<close>

lemma div_lower: "0 < (d::int) \<Longrightarrow> b * d \<le> x \<Longrightarrow> b \<le> x div d"
  using zdiv_mono1 by fastforce

lemma div_upper: "0 < (d::int) \<Longrightarrow> x < (c + 1) * d \<Longrightarrow> x div d \<le> c"
proof -
  assume d: "0 < d" and x: "x < (c + 1) * d"
  then have "x \<le> (d - 1) + c * d" by (simp add: algebra_simps)
  then have "x div d \<le> ((d - 1) + c * d) div d" using d by (rule zdiv_mono1)
  also have "\<dots> = c" using d by simp
  finally show ?thesis .
qed

lemma exact_estimate_bounds:
  assumes "0 \<le> s"
  shows "b \<le> exact_estimate b s processed n \<and> exact_estimate b s processed n \<le> b + s"
proof -
  let ?d = "int processed + int n + 1"
  let ?x = "(2 * (b * ?d + s * int processed) + ?d) div (2 * ?d)"
  have d: "0 < 2 * ?d" by simp
  have "s * int processed \<le> s * ?d" using assms by (intro mult_left_mono) simp_all
  then have up: "2 * (b * ?d + s * int processed) + ?d < (b + s + 1) * (2 * ?d)"
    by (simp add: algebra_simps)
  have "0 \<le> s * int processed" using assms by simp
  then have lo: "b * (2 * ?d) \<le> 2 * (b * ?d + s * int processed) + ?d"
    by (simp add: algebra_simps)
  have 1: "b \<le> ?x" using d lo by (rule div_lower)
  have 2: "?x \<le> b + s" using d up by (rule div_upper)
  show ?thesis using 1 2 by (simp add: exact_estimate_def Let_def)
qed

lemma progress_pct_bounds:
  assumes "\<And>p n. lo \<le> est (basePercent o') (spanPercent o') p n \<and>
              est (basePercent o') (spanPercent o') p n \<le> hi"
    and "0 \<le> lo" "hi \<le> 99"
  shows "lo \<le> progress_pct est o' processed n \<and> progress_pct est o' processed n \<le> hi"
  using assms(1) [of processed n] assms(2,3) by (simp add: progress_pct_def min_def max_def)

lemma posted_visit_element:
  assumes "\<And>p n. lo \<le> est (basePercent o') (spanPercent o') p n \<and>
              est (basePercent o') (spanPercent o') p n \<le> hi"
    and "0 \<le> lo" "hi \<le> 99"
  shows "\<exists>extra. posted (visit_element est o' p i el st) = posted st @ extra \<and> scan_ok lo hi extra"
proof (cases "processedElements st + 1 - lastEmit st \<ge> 250")
  case True
  then show ?thesis
    using progress_pct_bounds [of lo est o' hi, OF assms]
    by (simp add: visit_element_def Let_def scan_ok_def)
next
  case False
  then show ?thesis by (simp add: visit_element_def Let_def scan_ok_def)
qed

lemma posted_for_elements:
  assumes "\<And>p n. lo \<le> est (basePercent o') (spanPercent o') p n \<and>
              est (basePercent o') (spanPercent o') p n \<le> hi"
    and "0 \<le> lo" "hi \<le> 99"
  shows "\<exists>extra. posted (for_elements est o' p els sc st) = posted st @ extra \<and> scan_ok lo hi extra"
proof (induction els arbitrary: sc st)
  case Nil
  then show ?case by (simp add: scan_ok_def)
next
  case (Cons el els)
  show ?case
  proof (cases "el_type el = TElement")
    case False
    with Cons.IH [of sc st] show ?thesis by simp
  next
    case True
    let ?st = "visit_element est o' p (next_index sc (element_name el)) el st"
    obtain e1 where e1: "posted ?st = posted st @ e1" "scan_ok lo hi e1"
      using posted_visit_element [of lo est o' hi, OF assms] by blast
    obtain e2 where e2: "posted (for_elements est o' p els
          (set_count sc (element_name el) (next_index sc (element_name el))) ?st)
        = posted ?st @ e2" "scan_ok lo hi e2"
      using Cons.IH by blast
    have "scan_ok lo hi (e1 @ e2)" using e1 e2 by (simp add: scan_ok_def)
    with e1 e2 True show ?thesis by (simp add: Let_def)
  qed
qed

lemma posted_flatten_loop:
  assumes "\<And>p n. lo \<le> est (basePercent o') (spanPercent o') p n \<and>
              est (basePercent o') (spanPercent o') p n \<le> hi"
    and "0 \<le> lo" "hi \<le> 99"
  shows "\<exists>extra. posted (flatten_loop est o' st) = posted st @ extra \<and> scan_ok lo hi extra"
  using assms
proof (induction est o' st rule: flatten_loop.induct)
  case (1 est o' st)
  show ?case
  proof (cases "stack st")
    case Nil
    then show ?thesis by (simp add: flatten_loop.simps [of est o' st] scan_ok_def)
  next
    case (Cons item rest)
    obtain elements item_path where item: "item = (elements, item_path)" by (cases item)
    show ?thesis
    proof (cases elements)
      case None
      have "flatten_loop est o' st = flatten_loop est o' (st\<lparr>stack := rest\<rparr>)"
        using Cons item None by (simp add: flatten_loop.simps [of est o' st])
      then show ?thesis
        using "1.IH"(1) [OF Cons item [symmetric] None "1.prems"] by simp
    next
      case (Some els)
      let ?st = "for_elements est o' item_path els Map.empty (st\<lparr>stack := rest\<rparr>)"
      have f: "flatten_loop est o' st = flatten_loop est o' ?st"
        using Cons item Some by (simp add: flatten_loop.simps [of est o' st])
      obtain e1 where e1: "posted ?st = posted st @ e1" "scan_ok lo hi e1"
        using posted_for_elements [of lo est o' hi, OF "1.prems",
            of item_path els Map.empty "st\<lparr>stack := rest\<rparr>"]
        by auto
      obtain e2 where e2: "posted (flatten_loop est o' ?st) = posted ?st @ e2" "scan_ok lo hi e2"
        using "1.IH"(2) [OF Cons item [symmetric] Some "1.prems"] by blast
      have "scan_ok lo hi (e1 @ e2)" using e1 e2 by (simp add: scan_ok_def)
      with e1 e2 f show ?thesis by simp
    qed
  qed
qed

lemma posted_flatten_parsed:
  assumes "\<And>p n. lo \<le> est (basePercent o') (spanPercent o') p n \<and>
              est (basePercent o') (spanPercent o') p n \<le> hi"
    and "0 \<le> lo" "hi \<le> 99"
  shows "\<exists>extra. snd (flatten_parsed est o' root) =
      (basePercent o', ParsingXML) # extra @ [(basePercent o' + spanPercent o', FlattenComplete)]
      \<and> scan_ok lo hi extra"
  using posted_flatten_loop [of lo est o' hi, OF assms, of "\<lparr>collector = [], stack = [(root, [])],
      processedElements = 0, lastEmit = 0, posted = [(basePercent o', ParsingXML)]\<rparr>"]
  by (auto simp: flatten_parsed_def Let_def)

lemma error_flatten_parsed: "error (fst (flatten_parsed est o' root)) = None"
  by (simp add: flatten_parsed_def Let_def)

section \<open>The messages of a request\<close>

lemma mapXmlToFlat_Inl:
  "xml2js x = Inl m \<Longrightarrow>
     mapXmlToFlat xml2js est x o' = (\<lparr>map' = [], error = Some m\<rparr>, [(basePercent o', ParsingXML)])"
  by (simp add: mapXmlToFlat_def)

lemma mapXmlToFlat_Inr: "xml2js x = Inr r \<Longrightarrow> mapXmlToFlat xml2js est x o' = flatten_parsed est o' r"
  by (simp add: mapXmlToFlat_def)

lemma onmessage_unfold:
  "onmessage xml2js est cmp req =
     map (\<lambda>(p, m). Progress PhaseLeft p m) (snd (mapXmlToFlat xml2js est (leftXml req) left_opts)) @
     map (\<lambda>(p, m). Progress PhaseRight p m) (snd (mapXmlToFlat xml2js est (rightXml req) right_opts)) @
     (if truthy (error (fst (mapXmlToFlat xml2js est (leftXml req) left_opts))) \<or>
         truthy (error (fst (mapXmlToFlat xml2js est (rightXml req) right_opts)))
      then [Failed (error (fst (mapXmlToFlat xml2js est (leftXml req) left_opts)))
                   (error (fst (mapXmlToFlat xml2js est (rightXml req) right_opts)))]
      else [Progress PhaseDiff 92 Diffing, Progress PhaseDiff 99 Finalizing,
            Done (fst (diffMaps cmp (map' (fst (mapXmlToFlat xml2js est (leftXml req) left_opts)))
                        (map' (fst (mapXmlToFlat xml2js est (rightXml req) right_opts)))))
                 (snd (diffMaps cmp (map' (fst (mapXmlToFlat xml2js est (leftXml req) left_opts)))
                        (map' (fst (mapXmlToFlat xml2js est (rightXml req) right_opts)))))])"
  by (simp add: onmessage_def Let_def left_opts_def right_opts_def case_prod_unfold)

text \<open>
  Claim C4. When at least one of the two inputs fails to parse (the parser's message
  being a non-empty string), the flatten call of a failing side returns the empty
  mapping and the parser's message as its error, the other side is still flattened (its
  progress messages are all posted), no diff-phase message and no result message is
  posted, and the only terminal message carries the error of each failed side and
  nothing for a side that parsed.
\<close>

theorem parse_failure_reported:
  assumes msg: "\<And>x m. xml2js x = Inl m \<Longrightarrow> m \<noteq> []"
    and fail: "isl (xml2js (leftXml req)) \<or> isl (xml2js (rightXml req))"
  shows "onmessage xml2js est localeCompare req =
      map (\<lambda>(p, m). Progress PhaseLeft p m)
        (case xml2js (leftXml req) of
           Inl m \<Rightarrow> [(0, ParsingXML)] | Inr r \<Rightarrow> snd (flatten_parsed est left_opts r)) @
      map (\<lambda>(p, m). Progress PhaseRight p m)
        (case xml2js (rightXml req) of
           Inl m \<Rightarrow> [(45, ParsingXML)] | Inr r \<Rightarrow> snd (flatten_parsed est right_opts r)) @
      [Failed (case xml2js (leftXml req) of Inl m \<Rightarrow> Some m | Inr r \<Rightarrow> None)
              (case xml2js (rightXml req) of Inl m \<Rightarrow> Some m | Inr r \<Rightarrow> None)] \<and>
    (\<forall>x o' m. xml2js x = Inl m \<longrightarrow>
       fst (mapXmlToFlat xml2js est x o') = \<lparr>map' = [], error = Some m\<rparr>) \<and>
    list_all (\<lambda>r. \<not> is_done r \<and> phase_of r \<noteq> Some PhaseDiff) (onmessage xml2js est localeCompare req)"
proof -
  let ?L = "mapXmlToFlat xml2js est (leftXml req) left_opts"
  let ?R = "mapXmlToFlat xml2js est (rightXml req) right_opts"
  have el: "error (fst ?L) = (case xml2js (leftXml req) of Inl m \<Rightarrow> Some m | Inr r \<Rightarrow> None)"
    by (simp add: mapXmlToFlat_def error_flatten_parsed split: sum.splits)
  have er: "error (fst ?R) = (case xml2js (rightXml req) of Inl m \<Rightarrow> Some m | Inr r \<Rightarrow> None)"
    by (simp add: mapXmlToFlat_def error_flatten_parsed split: sum.splits)
  have pl: "snd ?L = (case xml2js (leftXml req) of
           Inl m \<Rightarrow> [(0, ParsingXML)] | Inr r \<Rightarrow> snd (flatten_parsed est left_opts r))"
    by (simp add: mapXmlToFlat_def left_opts_def split: sum.splits)
  have pr: "snd ?R = (case xml2js (rightXml req) of
           Inl m \<Rightarrow> [(45, ParsingXML)] | Inr r \<Rightarrow> snd (flatten_parsed est right_opts r))"
    by (simp add: mapXmlToFlat_def right_opts_def split: sum.splits)
  have t: "truthy (error (fst ?L)) \<or> truthy (error (fst ?R))"
    using fail msg by (auto simp: el er truthy_def isl_def)
  have 1: "onmessage xml2js est localeCompare req =
      map (\<lambda>(p, m). Progress PhaseLeft p m) (snd ?L) @ map (\<lambda>(p, m). Progress PhaseRight p m) (snd ?R) @
      [Failed (error (fst ?L)) (error (fst ?R))]"
    using t by (simp only: onmessage_unfold if_True)
  have 2: "\<forall>x o' m. xml2js x = Inl m \<longrightarrow>
       fst (mapXmlToFlat xml2js est x o') = \<lparr>map' = [], error = Some m\<rparr>"
    by (simp add: mapXmlToFlat_Inl)
  have 3: "list_all (\<lambda>r. \<not> is_done r \<and> phase_of r \<noteq> Some PhaseDiff) (onmessage xml2js est localeCompare req)"
    by (auto simp: 1 list_all_iff)
  show ?thesis using 1 2 3 by (simp only: el er pl pr)
qed


theorem parse_failure_reported_witness:
  "onmessage example_xml2js exact_estimate compare_codes
      \<lparr>leftXml = ''<a><b>1</b>'', rightXml = ''<a><b>1</b><b>3</b></a>''\<rparr> =
     [Progress PhaseLeft 0 ParsingXML, Progress PhaseRight 45 ParsingXML,
      Progress PhaseRight 90 FlattenComplete, Failed (Some ''Unclosed root tag'') None]"
proof -
  let ?req = "\<lparr>leftXml = ''<a><b>1</b>'', rightXml = ''<a><b>1</b><b>3</b></a>''\<rparr>"
  have m: "\<And>x m. example_xml2js x = Inl m \<Longrightarrow> m \<noteq> []"
    by (auto simp: example_xml2js_def split: if_splits)
  have f: "isl (example_xml2js (leftXml ?req)) \<or> isl (example_xml2js (rightXml ?req))"
    by (simp add: example_xml2js_def)
  have p: "snd (flatten_parsed exact_estimate right_opts (Some example_right)) =
      [(45, ParsingXML), (90, FlattenComplete)]"
    by code_simp
  have "onmessage example_xml2js exact_estimate compare_codes ?req =
      map (\<lambda>(p, m). Progress PhaseLeft p m)
        (case example_xml2js (leftXml ?req) of
           Inl m \<Rightarrow> [(0, ParsingXML)] | Inr r \<Rightarrow> snd (flatten_parsed exact_estimate left_opts r)) @
      map (\<lambda>(p, m). Progress PhaseRight p m)
        (case example_xml2js (rightXml ?req) of
           Inl m \<Rightarrow> [(45, ParsingXML)] | Inr r \<Rightarrow> snd (flatten_parsed exact_estimate right_opts r)) @
      [Failed (case example_xml2js (leftXml ?req) of Inl m \<Rightarrow> Some m | Inr r \<Rightarrow> None)
              (case example_xml2js (rightXml ?req) of Inl m \<Rightarrow> Some m | Inr r \<Rightarrow> None)]"
    by (rule parse_failure_reported [THEN conjunct1]) (erule m, rule f)
  then show ?thesis by (simp add: example_xml2js_def p)
qed

lemma map_filter_append:
  "List.map_filter f (xs @ ys) = List.map_filter f xs @ List.map_filter f ys"
  by (simp add: List.map_filter_def)

lemma percents_append: "percents (xs @ ys) = percents xs @ percents ys"
  by (simp add: percents_def map_filter_append)

lemma percents_Progress: "percents (map (\<lambda>(p, m). Progress ph p m) xs) = map fst xs"
  by (induction xs) (auto simp: percents_def List.map_filter_def)

lemma phases_Progress:
  "List.map_filter phase_of (map (\<lambda>(p, m). Progress ph p m) xs) = map (\<lambda>x. ph) xs"
  by (induction xs) (auto simp: List.map_filter_def)

lemma list_all_Progress:
  "list_all in_phase_range (map (\<lambda>(p, m). Progress ph p m) xs) =
     list_all (\<lambda>(p, m). phase_low ph \<le> p \<and> p \<le> phase_high ph) xs"
  by (induction xs) auto

lemma filter_Progress:
  "filter (\<lambda>r. \<not> is_estimate r) (map (\<lambda>(p, m). Progress ph p m) xs) =
     map (\<lambda>(p, m). Progress ph p m) (filter (\<lambda>(p, m). m \<noteq> ScanningElements) xs)"
  by (induction xs) auto

lemma scan_ok_filter: "scan_ok lo hi e \<Longrightarrow> filter (\<lambda>(p, m). m \<noteq> ScanningElements) e = []"
  by (induction e) (auto simp: scan_ok_def)

lemma sorted_map_const: "sorted (map (f \<circ> (\<lambda>x. c)) xs)"
  by (induction xs) auto

lemma posted_shape:
  assumes "\<And>p n. lo \<le> est (basePercent o') (spanPercent o') p n \<and>
              est (basePercent o') (spanPercent o') p n \<le> hi"
    and "0 \<le> lo" "hi \<le> 99"
  shows "\<exists>e. scan_ok lo hi e \<and>
     (snd (mapXmlToFlat xml2js est x o') = [(basePercent o', ParsingXML)] \<or>
      snd (mapXmlToFlat xml2js est x o') =
        (basePercent o', ParsingXML) # e @ [(basePercent o' + spanPercent o', FlattenComplete)])"
proof (cases "xml2js x")
  case (Inl m)
  then show ?thesis by (auto simp: mapXmlToFlat_Inl scan_ok_def intro: exI [of _ "[]"])
next
  case (Inr r)
  then show ?thesis
    using posted_flatten_parsed [of lo est o' hi, OF assms, of r] by (auto simp: mapXmlToFlat_Inr)
qed

text \<open>
  Claim C6, amended. The rounded floating-point estimate lies between the base and the
  base plus the span of its phase (the ratio is between 0 and 1). Then, for every
  request, the percent of every progress message lies in the range of its phase (left
  0 to 45, right 45 to 90, diff 92 to 99), the phases come in this order, the percents
  of the messages other than the intermediate estimates of a flattening are
  non-decreasing, no progress message carries 100, and the last progress message before
  a result message carries 99.
\<close>

theorem progress_ranges:
  assumes left: "\<And>p n. 0 \<le> est 0 45 p n \<and> est 0 45 p n \<le> 45"
    and right: "\<And>p n. 45 \<le> est 45 45 p n \<and> est 45 45 p n \<le> 90"
  shows
  "list_all in_phase_range (onmessage xml2js est localeCompare req) \<and>
   sorted (map phase_rank (List.map_filter phase_of (onmessage xml2js est localeCompare req))) \<and>
   sorted (percents (filter (\<lambda>r. \<not> is_estimate r) (onmessage xml2js est localeCompare req))) \<and>
   100 \<notin> set (percents (onmessage xml2js est localeCompare req)) \<and>
   (is_done (last (onmessage xml2js est localeCompare req)) \<longrightarrow>
      last (percents (onmessage xml2js est localeCompare req)) = 99)"
proof -
  let ?L = "mapXmlToFlat xml2js est (leftXml req) left_opts"
  let ?R = "mapXmlToFlat xml2js est (rightXml req) right_opts"
  obtain e1 where e1: "scan_ok 0 45 e1"
    "snd ?L = [(0, ParsingXML)] \<or> snd ?L = (0, ParsingXML) # e1 @ [(45, FlattenComplete)]"
    using posted_shape [of 0 est left_opts 45 xml2js "leftXml req"] left
    by (auto simp: left_opts_def)
  obtain e2 where e2: "scan_ok 45 90 e2"
    "snd ?R = [(45, ParsingXML)] \<or> snd ?R = (45, ParsingXML) # e2 @ [(90, FlattenComplete)]"
    using posted_shape [of 45 est right_opts 90 xml2js "rightXml req"] right
    by (auto simp: right_opts_def)
  have r1: "list_all (\<lambda>(p, m). 0 \<le> p \<and> p \<le> 45) e1"
    using e1(1) by (auto simp: scan_ok_def list_all_iff)
  have r2: "list_all (\<lambda>(p, m). 45 \<le> p \<and> p \<le> 90) e2"
    using e2(1) by (auto simp: scan_ok_def list_all_iff)
  have f1: "filter (\<lambda>(p, m). m \<noteq> ScanningElements) e1 = []" using e1(1) by (rule scan_ok_filter)
  have f2: "filter (\<lambda>(p, m). m \<noteq> ScanningElements) e2 = []" using e2(1) by (rule scan_ok_filter)
  have a: "list_all in_phase_range (onmessage xml2js est localeCompare req)"
    using e1(2) e2(2) r1 r2
    by (auto simp: onmessage_unfold list_all_Progress)
  have b: "sorted (map phase_rank (List.map_filter phase_of (onmessage xml2js est localeCompare req)))"
    by (simp add: onmessage_unfold map_filter_append phases_Progress sorted_append
        List.map_filter_simps sorted_map_const)
  have c: "sorted (percents (filter (\<lambda>r. \<not> is_estimate r) (onmessage xml2js est localeCompare req)))"
    using e1(2) e2(2) f1 f2
    by (auto simp: onmessage_unfold filter_Progress percents_append percents_Progress
        percents_def [of "[_]"] percents_def [of "[_, _, _]"] List.map_filter_simps)
  have d: "100 \<notin> set (percents (onmessage xml2js est localeCompare req))"
  proof
    assume "100 \<in> set (percents (onmessage xml2js est localeCompare req))"
    then obtain r where "r \<in> set (onmessage xml2js est localeCompare req)" "percent_of r = Some 100"
      by (auto simp: percents_def List.map_filter_def)
    with a show False by (cases r; cases "the (phase_of r)") (auto simp: list_all_iff)
  qed
  have e: "is_done (last (onmessage xml2js est localeCompare req)) \<longrightarrow>
      last (percents (onmessage xml2js est localeCompare req)) = 99"
    by (simp add: onmessage_unfold percents_append percents_def [of "[_, _, _]"] List.map_filter_simps)
  from a b c d e show ?thesis by blast
qed


lemma posted_example_left:
  "snd (flatten_parsed exact_estimate left_opts (Some example_left)) = [(0, ParsingXML), (45, FlattenComplete)]"
  by code_simp

lemma posted_example_right:
  "snd (flatten_parsed exact_estimate right_opts (Some example_right)) = [(45, ParsingXML), (90, FlattenComplete)]"
  by code_simp

theorem progress_ranges_witness:
  "is_done (last (onmessage example_xml2js exact_estimate compare_codes
      \<lparr>leftXml = ''<a><b>1</b><b>2</b></a>'', rightXml = ''<a><b>1</b><b>3</b></a>''\<rparr>)) \<and>
   percents (onmessage example_xml2js exact_estimate compare_codes
      \<lparr>leftXml = ''<a><b>1</b><b>2</b></a>'', rightXml = ''<a><b>1</b><b>3</b></a>''\<rparr>) =
     [0, 45, 45, 90, 92, 99] \<and>
   last (percents (onmessage example_xml2js exact_estimate compare_codes
      \<lparr>leftXml = ''<a><b>1</b><b>2</b></a>'', rightXml = ''<a><b>1</b><b>3</b></a>''\<rparr>)) = 99"
proof -
  let ?req = "\<lparr>leftXml = ''<a><b>1</b><b>2</b></a>'', rightXml = ''<a><b>1</b><b>3</b></a>''\<rparr>"
  have d: "is_done (last (onmessage example_xml2js exact_estimate compare_codes ?req))"
    by (simp add: onmessage_unfold mapXmlToFlat_def example_xml2js_def error_flatten_parsed
        truthy_def)
  have p: "percents (onmessage example_xml2js exact_estimate compare_codes ?req) = [0, 45, 45, 90, 92, 99]"
    by (simp add: onmessage_unfold mapXmlToFlat_def example_xml2js_def error_flatten_parsed
        truthy_def posted_example_left posted_example_right percents_def List.map_filter_simps)
  have "is_done (last (onmessage example_xml2js exact_estimate compare_codes ?req)) \<longrightarrow>
      last (percents (onmessage example_xml2js exact_estimate compare_codes ?req)) = 99"
    by (rule progress_ranges [THEN conjunct2, THEN conjunct2, THEN conjunct2, THEN conjunct2])
      (use exact_estimate_bounds [of 45 0] exact_estimate_bounds [of 45 45] in simp_all)
  then have "last (percents (onmessage example_xml2js exact_estimate compare_codes ?req)) = 99"
    using d by blast
  with d p show ?thesis by blast
qed

section \<open>Names that a plain object inherits, and CDATA sections\<close>

text \<open>
  Claim C2 fails on the code. The counter of the name \<^verbatim>\<open>__proto__\<close> is never stored:
  both siblings of \<^verbatim>\<open><a><__proto__ x="1"/><__proto__ x="2"/></a>\<close> get the index
  \<^verbatim>\<open>[object Object]1\<close>, their attributes are written under one key, and the flat
  mapping keeps the second value only.
\<close>

theorem flatten_proto_collision:
  "map' (fst (flatten_parsed exact_estimate left_opts (Some proto_doc))) =
     [(''a[1].__proto__[[object Object]1]/@x'', ''2'')]"
  by code_simp

text \<open>
  Claim C3 fails on the code. The content of a CDATA section is in the field
  \<^verbatim>\<open>cdata\<close> of its node and the code reads the field \<^verbatim>\<open>text\<close>: for
  \<^verbatim>\<open><a>x<![CDATA[ y ]]>z</a>\<close> the entry is \<^verbatim>\<open>xz\<close>, without the content of the
  section.
\<close>

theorem flatten_cdata_dropped:
  "extractText (Some [text_node ''x'', cdata_node '' y '', text_node ''z'']) = ''xz'' \<and>
   map' (fst (flatten_parsed exact_estimate left_opts (Some cdata_doc))) =
     [(''a[1]/#text'', ''xz'')]"
  by code_simp

section \<open>Flattening the serialized tree\<close>

lemma extractText_direct:
  "extractText (el_elements el) = direct_text (case el_elements el of None \<Rightarrow> [] | Some ns \<Rightarrow> ns)"
  by (cases "el_elements el")
    (simp_all add: extractText_Some, simp add: extractText_def direct_text_def trim_Nil)

lemma buildXml_all_elements:
  "list_all (\<lambda>n. el_type n = TElement) (buildXmlFromEditable nodes)"
  by (induction nodes rule: buildXmlFromEditable.induct) simp_all

lemma filter_all: "list_all P xs \<Longrightarrow> filter P xs = xs"
  by (induction xs) auto

lemma filter_none: "list_all P xs \<Longrightarrow> filter (\<lambda>x. \<not> P x) xs = []"
  by (induction xs) auto

lemma filter_text_elements:
  "list_all (\<lambda>n. el_type n = TElement) xs \<Longrightarrow>
     filter (\<lambda>n. el_type n = TText \<or> el_type n = TCdata) xs = []"
  by (induction xs) auto

lemma buildXml_if: "(if length ch > 0 then buildXmlFromEditable ch else []) = buildXmlFromEditable ch"
  by (cases ch) simp_all

lemma kids_children:
  "list_all (\<lambda>n. el_type n = TElement) X \<Longrightarrow>
     filter (\<lambda>n. el_type n = TElement)
       ((if v \<noteq> [] then [Element TText None None (Some v) None None] else []) @ X) = X"
  by (simp add: filter_all)

lemma kids_text:
  "list_all (\<lambda>n. el_type n = TElement) X \<Longrightarrow>
     direct_text ((if v \<noteq> [] then [Element TText None None (Some v) None None] else []) @ X) =
       trim v"
  by (simp add: direct_text_def filter_text_elements trim_Nil)

lemma named_node_name: "named_node el \<Longrightarrow> el_name el \<noteq> Some []"
  by (cases el) simp

lemma named_node_children: "named_node el \<Longrightarrow> list_all named_node (element_children el)"
  by (cases el) (auto simp: element_children_def list_all_iff split: option.splits)

lemma rebuilt_element:
  assumes "el_type el = TElement" "named_node el"
  shows "\<exists>el' rest. buildXmlFromEditable (buildEditableTree_each (el # els) pa pp sc) = el' # 
           buildXmlFromEditable (buildEditableTree_each els pa pp rest) \<and>
         el_type el' = TElement \<and> element_name el' = element_name el \<and>
         (\<forall>ps. entries ps el' = entries ps el) \<and>
         (\<exists>pa' pp'. element_children el' =
            buildXmlFromEditable (buildEditableTree_each (element_children el) pa' pp' Map.empty))"
proof -
  let ?name = "case el_name el of None \<Rightarrow> ''unnamed'' | Some n \<Rightarrow> if n = [] then ''unnamed'' else n"
  let ?count = "next_count sc ?name"
  let ?cp = "if pa \<noteq> [] then pa @ ''.'' @ segment ?name ?count else segment ?name ?count"
  let ?fp = "if pp \<noteq> [] then pp @ ''.'' @ ?name else ?name"
  let ?v = "direct_text (case el_elements el of None \<Rightarrow> [] | Some ns \<Rightarrow> ns)"
  let ?attrs = "case el_attributes el of None \<Rightarrow> [] | Some a \<Rightarrow> a"
  let ?ch = "buildEditableTree_each (element_children el) ?cp ?fp Map.empty"
  let ?kids = "(if ?v \<noteq> [] then [Element TText None None (Some ?v) None None] else []) @
              (if length ?ch > 0 then buildXmlFromEditable ?ch else [])"
  let ?el' = "Element TElement (Some ?name)
       (if length (map fst ?attrs) > 0 then Some ?attrs else None) None None (Some ?kids)"
  have tv: "trim (concat (map (\<lambda>n. case el_text n of None \<Rightarrow> [] | Some t \<Rightarrow> t)
      (case el_elements el of None \<Rightarrow> []
       | Some ns \<Rightarrow> filter (\<lambda>n. el_type n = TText \<or> el_type n = TCdata) ns))) = ?v"
    by (simp add: direct_text_def split: option.splits)
  have b: "buildXmlFromEditable (buildEditableTree_each (el # els) pa pp sc) =
      ?el' # buildXmlFromEditable (buildEditableTree_each els pa pp (set_count sc ?name ?count))"
    using assms(1) by (simp add: Let_def tv)
  have n: "element_name ?el' = element_name el"
    using named_node_name [OF assms(2)] by (auto simp: element_name_def split: option.splits)
  have all: "list_all (\<lambda>n. el_type n = TElement) (buildXmlFromEditable ?ch)"
    by (rule buildXml_all_elements)
  have c: "element_children ?el' = buildXmlFromEditable ?ch"
    unfolding buildXml_if using kids_children [OF all] by (simp add: element_children_def)
  have "direct_text ((if ?v \<noteq> [] then [Element TText None None (Some ?v) None None] else []) @
      buildXmlFromEditable ?ch) = trim ?v"
    using all by (rule kids_text)
  also have "\<dots> = ?v" unfolding direct_text_def by (rule trim_idem)
  finally have kt: "direct_text ((if ?v \<noteq> [] then [Element TText None None (Some ?v) None None] else []) @
      buildXmlFromEditable ?ch) = ?v" .
  have t: "extractText (el_elements ?el') = extractText (el_elements el)"
    unfolding buildXml_if by (simp only: Element.sel extractText_Some kt extractText_direct [of el])
  have e: "entries ps ?el' = entries ps el" for ps
    unfolding entries_def t by (cases "el_attributes el") auto
  show ?thesis using b n c e by (intro exI [of _ ?el'] exI conjI) auto
qed


lemma indexed_rebuilt:
  "list_all named_node els \<Longrightarrow>
     list_all2 sim (indexed p sc0 els)
       (indexed p sc0 (buildXmlFromEditable (buildEditableTree_each els pa pp sc)))"
proof (induction els arbitrary: sc0 sc)
  case Nil
  then show ?case by simp
next
  case (Cons el els)
  show ?case
  proof (cases "el_type el = TElement")
    case False
    with Cons show ?thesis by simp
  next
    case True
    from Cons.prems have nm: "named_node el" and rest: "list_all named_node els" by simp_all
    from rebuilt_element [OF True nm, of els pa pp sc] obtain el' sc' where
      b: "buildXmlFromEditable (buildEditableTree_each (el # els) pa pp sc) =
            el' # buildXmlFromEditable (buildEditableTree_each els pa pp sc')"
      and t: "el_type el' = TElement" and n: "element_name el' = element_name el"
      and e: "\<forall>ps. entries ps el' = entries ps el"
      and c: "\<exists>pa' pp'. element_children el' =
            buildXmlFromEditable (buildEditableTree_each (element_children el) pa' pp' Map.empty)"
      by blast
    have s: "sim (p @ [segment (element_name el) (next_index sc0 (element_name el))], el)
        (p @ [segment (element_name el) (next_index sc0 (element_name el))], el')"
      using e c by (simp add: sim_def)
    show ?thesis
      unfolding b using True t n s
        Cons.IH [OF rest, of "set_count sc0 (element_name el) (next_index sc0 (element_name el))" sc']
      by simp
  qed
qed

lemma list_all2_map_eq:
  "list_all2 R xs ys \<Longrightarrow> (\<And>x y. x \<in> set xs \<Longrightarrow> R x y \<Longrightarrow> f x = g y) \<Longrightarrow> map f xs = map g ys"
  by (induction rule: list_all2_induct) auto

lemma writes_rebuilt:
  "list_all named_node els \<Longrightarrow>
     writes p (buildXmlFromEditable (buildEditableTree_each els pa pp sc)) = writes p els"
proof (induction p els arbitrary: pa pp sc rule: visited.induct)
  case (1 p els)
  let ?ixs = "indexed p Map.empty els"
  let ?ixs' = "indexed p Map.empty (buildXmlFromEditable (buildEditableTree_each els pa pp sc))"
  have l: "list_all2 sim ?ixs ?ixs'" using "1.prems" by (rule indexed_rebuilt)
  have own: "map (\<lambda>(cp, el). entries (join_dot cp) el) ?ixs =
      map (\<lambda>(cp, el). entries (join_dot cp) el) ?ixs'"
    using l by (rule list_all2_map_eq) (auto simp: sim_def)
  have sub: "map (\<lambda>(cp, el). writes cp (element_children el)) (rev ?ixs) =
      map (\<lambda>(cp, el). writes cp (element_children el)) (rev ?ixs')"
  proof (rule list_all2_map_eq [where R = sim])
    show "list_all2 sim (rev ?ixs) (rev ?ixs')" using l by (simp add: list_all2_rev)
  next
    fix x y assume x: "x \<in> set (rev ?ixs)" and r: "sim x y"
    obtain cp el where x0: "x = (cp, el)" by (cases x)
    obtain cp' el' where y0: "y = (cp', el')" by (cases y)
    from r x0 y0 obtain pa' pp' where cp: "cp' = cp"
      and ch: "element_children el' =
        buildXmlFromEditable (buildEditableTree_each (element_children el) pa' pp' Map.empty)"
      by (auto simp: sim_def)
    from x x0 have "el \<in> set els" using indexed_subset [of cp el p Map.empty els] by simp
    with "1.prems" have "named_node el" by (simp add: list_all_iff)
    then have "list_all named_node (element_children el)" by (rule named_node_children)
    then have "writes cp (buildXmlFromEditable
        (buildEditableTree_each (element_children el) pa' pp' Map.empty)) =
        writes cp (element_children el)"
      using x x0 by (intro "1.IH" [of x cp el]) simp_all
    then show "(case x of (cp, el) \<Rightarrow> writes cp (element_children el)) =
        (case y of (cp, el) \<Rightarrow> writes cp (element_children el))"
      by (simp add: x0 y0 cp ch)
  qed
  show ?case
    by (simp add: writes_unfold [of p els]
        writes_unfold [of p "buildXmlFromEditable (buildEditableTree_each els pa pp sc)"] own sub)
qed

text \<open>
  Claim C5. For every parsed document (no node has the empty string as its name),
  flattening the element structure that \<open>buildXmlFromEditable\<close> makes of the tree that
  \<open>buildEditableTree\<close> builds from the document gives the flat mapping of the document
  itself: the same entries, in the same order.
\<close>

theorem roundtrip_flatten:
  assumes "case rootElements of None \<Rightarrow> True | Some els \<Rightarrow> list_all named_node els"
  shows "map' (fst (flatten_parsed est o'
           (Some (buildXmlFromEditable (buildEditableTree rootElements [] []))))) =
         map' (fst (flatten_parsed est o' rootElements))"
proof (cases rootElements)
  case None
  then show ?thesis by (simp add: map_flatten_parsed buildEditableTree_def)
next
  case (Some els)
  with assms have "list_all named_node els" by simp
  then show ?thesis using Some
    by (simp add: map_flatten_parsed buildEditableTree_def writes_rebuilt)
qed

lemma named_example_doc: "list_all named_node example_doc"
  by code_simp

lemma map_example_doc:
  "map' (fst (flatten_parsed exact_estimate left_opts (Some example_doc))) =
     [(''a[1]/@x'', ''1''), (''a[1]/#text'', ''hi''), (''a[1].b[1]/#text'', ''1''),
      (''a[1].b[2]/#text'', ''2'')]"
  by code_simp

lemma rebuilt_example_doc:
  "buildXmlFromEditable (buildEditableTree (Some example_doc) [] []) =
     [element_node ''a'' (Some [(''x'', ''1'')])
        [text_node ''hi'', element_node ''b'' None [text_node ''1''],
         element_node ''b'' None [text_node ''2'']]]"
  by code_simp

theorem roundtrip_flatten_witness:
  "list_all named_node example_doc \<and>
   buildXmlFromEditable (buildEditableTree (Some example_doc) [] []) =
     [element_node ''a'' (Some [(''x'', ''1'')])
        [text_node ''hi'', element_node ''b'' None [text_node ''1''],
         element_node ''b'' None [text_node ''2'']]] \<and>
   map' (fst (flatten_parsed exact_estimate left_opts
      (Some (buildXmlFromEditable (buildEditableTree (Some example_doc) [] []))))) =
     [(''a[1]/@x'', ''1''), (''a[1]/#text'', ''hi''), (''a[1].b[1]/#text'', ''1''),
      (''a[1].b[2]/#text'', ''2'')]"
proof -
  have "map' (fst (flatten_parsed exact_estimate left_opts
      (Some (buildXmlFromEditable (buildEditableTree (Some example_doc) [] []))))) =
     map' (fst (flatten_parsed exact_estimate left_opts (Some example_doc)))"
    using named_example_doc by (intro roundtrip_flatten) simp
  with named_example_doc rebuilt_example_doc map_example_doc show ?thesis by simp
qed

section \<open>Reindexing the tree\<close>

lemma regenerateIds_again:
  "regenerateIds (regenerateIds nodes p sc) q sc' = regenerateIds nodes q sc'"
proof (induction nodes p sc arbitrary: q sc' rule: regenerateIds.induct)
  case (1 parentPath siblingCounts)
  then show ?case by simp
next
  case (2 i p name v attributes t ch nodes parentPath siblingCounts)
  show ?case
    by (simp add: Let_def "2.IH"(1) [OF refl refl] "2.IH"(2) [OF refl refl])
qed

lemma children_regenerated:
  "list_all (\<lambda>n. node_children n = regenerateIds (node_children n) (node_path n) Map.empty)
     (regenerateIds nodes p sc)"
proof (induction nodes p sc rule: regenerateIds.induct)
  case (1 parentPath siblingCounts)
  then show ?case by simp
next
  case (2 i p name v attributes t ch nodes parentPath siblingCounts)
  then show ?case by (simp add: Let_def regenerateIds_again)
qed

text \<open>
  Claim C8. For every list of nodes, parent path and table of counters the call starts
  from, reindexing the reindexed list gives the reindexed list; and in the result the
  children of every node are reindexed under the path of the node from a fresh table
  of counters.
\<close>

theorem regenerateIds_idempotent:
  "regenerateIds (regenerateIds nodes parentPath siblingCounts) parentPath siblingCounts =
     regenerateIds nodes parentPath siblingCounts \<and>
   list_all (\<lambda>n. node_children n = regenerateIds (node_children n) (node_path n) Map.empty)
     (regenerateIds nodes parentPath siblingCounts)"
  by (simp add: regenerateIds_again children_regenerated)

lemma regenerateIds_stale_tree:
  "regenerateIds stale_tree [] Map.empty =
     [EditableNode ''a[1]'' ''a[1]'' ''a'' [] [] True
        [EditableNode ''a[1].b[1]'' ''a[1].b[1]'' ''b'' [] [] True [],
         EditableNode ''a[1].b[2]'' ''a[1].b[2]'' ''b'' [] [] True []]]"
  by code_simp

theorem regenerateIds_idempotent_witness:
  "regenerateIds stale_tree [] Map.empty =
     [EditableNode ''a[1]'' ''a[1]'' ''a'' [] [] True
        [EditableNode ''a[1].b[1]'' ''a[1].b[1]'' ''b'' [] [] True [],
         EditableNode ''a[1].b[2]'' ''a[1].b[2]'' ''b'' [] [] True []]] \<and>
   regenerateIds (regenerateIds stale_tree [] Map.empty) [] Map.empty =
     [EditableNode ''a[1]'' ''a[1]'' ''a'' [] [] True
        [EditableNode ''a[1].b[1]'' ''a[1].b[1]'' ''b'' [] [] True [],
         EditableNode ''a[1].b[2]'' ''a[1].b[2]'' ''b'' [] [] True []]]"
proof -
  have "regenerateIds (regenerateIds stale_tree [] Map.empty) [] Map.empty =
      regenerateIds stale_tree [] Map.empty"
    using regenerateIds_idempotent [of stale_tree "[]" Map.empty] by blast
  then show ?thesis by (simp only: regenerateIds_stale_tree)
qed

section \<open>Duplicating a node\<close>








section \<open>Elements without a name\<close>

lemma unnamed_written_sel:
  "el_type (unnamed_written el) = el_type el"
  "element_name (unnamed_written el) = element_name el"
  "el_attributes (unnamed_written el) = el_attributes el"
  "el_elements (unnamed_written el) = el_elements el"
  by (cases el; simp add: element_name_def split: option.splits)+

lemma visit_element_unnamed:
  "visit_element est o' p i (unnamed_written el) st = visit_element est o' p i el st"
  by (simp add: visit_element_def unnamed_written_sel)

lemma for_elements_unnamed:
  "for_elements est o' p (map unnamed_written els) sc st = for_elements est o' p els sc st"
  by (induction els arbitrary: sc st) (simp_all add: unnamed_written_sel visit_element_unnamed Let_def)

lemma editor_name_unnamed:
  "(case el_name (unnamed_written el) of None \<Rightarrow> ''unnamed'' | Some n \<Rightarrow> if n = [] then ''unnamed'' else n) =
   (case el_name el of None \<Rightarrow> ''unnamed'' | Some n \<Rightarrow> if n = [] then ''unnamed'' else n)"
  by (cases el) (simp split: option.splits)

lemma element_children_unnamed: "element_children (unnamed_written el) = element_children el"
  by (simp add: element_children_def unnamed_written_sel)

lemma buildEditableTree_unnamed:
  "buildEditableTree_each (map unnamed_written els) pa pp sc = buildEditableTree_each els pa pp sc"
  by (induction els arbitrary: sc)
    (simp_all add: unnamed_written_sel editor_name_unnamed element_children_unnamed Let_def)

lemma next_index_numeric:
  "Object_prototype nm = None \<Longrightarrow> numeric_count sc nm \<Longrightarrow>
     next_index sc nm = Num (Suc (count_value sc nm))"
  by (auto simp: next_index_def get_count_def numeric_count_def count_value_def
      split: option.splits js_index.splits)

lemma next_count_numeric:
  "Object_prototype nm = None \<Longrightarrow> numeric_count sc nm \<Longrightarrow>
     next_count sc nm = Num (Suc (count_value sc nm))"
  by (auto simp: next_count_def get_count_def numeric_count_def count_value_def
      split: option.splits js_index.splits)

lemma set_count_same:
  "Object_prototype nm = None \<Longrightarrow>
     numeric_count (set_count sc nm (Num c)) nm \<and> count_value (set_count sc nm (Num c)) nm = c"
  by (auto simp: set_count_def numeric_count_def count_value_def Object_prototype_def)

lemma set_count_other:
  "e \<noteq> nm \<Longrightarrow> numeric_count (set_count sc e v) nm = numeric_count sc nm \<and>
     count_value (set_count sc e v) nm = count_value sc nm"
  by (simp add: set_count_def numeric_count_def count_value_def)

lemma indexed_named:
  assumes "Object_prototype nm = None"
  shows "numeric_count sc nm \<Longrightarrow>
     (\<forall>(cp, el) \<in> set (indexed p sc els). element_name el = nm \<longrightarrow>
        (\<exists>i > count_value sc nm. cp = p @ [segment nm (Num i)])) \<and>
     distinct (map fst (filter (\<lambda>(cp, el). element_name el = nm) (indexed p sc els)))"
proof (induction els arbitrary: sc)
  case Nil
  then show ?case by simp
next
  case (Cons e els)
  show ?case
  proof (cases "el_type e = TElement")
    case False
    with Cons show ?thesis by simp
  next
    case True
    let ?e = "element_name e"
    let ?sc = "set_count sc ?e (next_index sc ?e)"
    show ?thesis
    proof (cases "?e = nm")
      case False
      then have "numeric_count ?sc nm" "count_value ?sc nm = count_value sc nm"
        using Cons.prems set_count_other [of ?e nm sc] by simp_all
      with Cons.IH [of ?sc] True False show ?thesis by auto
    next
      case eq: True
      have ni: "next_index sc nm = Num (Suc (count_value sc nm))"
        using assms Cons.prems by (rule next_index_numeric)
      have sc': "numeric_count ?sc nm" "count_value ?sc nm = Suc (count_value sc nm)"
        using set_count_same [OF assms, of sc "Suc (count_value sc nm)"] eq ni by simp_all
      from Cons.IH [OF sc'(1)] have
        ih1: "\<forall>(cp, el) \<in> set (indexed p ?sc els). element_name el = nm \<longrightarrow>
            (\<exists>i > Suc (count_value sc nm). cp = p @ [segment nm (Num i)])"
        and ih2: "distinct (map fst (filter (\<lambda>(cp, el). element_name el = nm) (indexed p ?sc els)))"
        using sc'(2) by simp_all
      have fresh: "p @ [segment nm (Num (Suc (count_value sc nm)))] \<notin>
          fst ` set (filter (\<lambda>(cp, el). element_name el = nm) (indexed p ?sc els))"
      proof
        assume "p @ [segment nm (Num (Suc (count_value sc nm)))] \<in>
          fst ` set (filter (\<lambda>(cp, el). element_name el = nm) (indexed p ?sc els))"
        then obtain el where "(p @ [segment nm (Num (Suc (count_value sc nm)))], el)
            \<in> set (indexed p ?sc els)" "element_name el = nm" by auto
        with ih1 obtain i where "i > Suc (count_value sc nm)"
          "segment nm (Num (Suc (count_value sc nm))) = segment nm (Num i)" by auto
        then show False using segment_Num_inj by blast
      qed
      have "\<forall>(cp, el) \<in> set (indexed p sc (e # els)). element_name el = nm \<longrightarrow>
            (\<exists>i > count_value sc nm. cp = p @ [segment nm (Num i)])"
        using True eq ni ih1 by (fastforce dest: Suc_lessD)
      moreover have "distinct (map fst (filter (\<lambda>(cp, el). element_name el = nm) (indexed p sc (e # els))))"
        using True eq ni ih2 fresh by simp
      ultimately show ?thesis by blast
    qed
  qed
qed


lemma upt_shift: "map f [0..<Suc k] = f 0 # map (\<lambda>i. f (Suc i)) [0..<k]"
  by (simp add: upt_conv_Cons map_Suc_upt [symmetric] del: upt_Suc)

lemma indexed_numbered:
  assumes "Object_prototype nm = None"
  shows "numeric_count sc nm \<Longrightarrow>
     map fst (filter (\<lambda>(cp, el). element_name el = nm) (indexed p sc els)) =
     map (\<lambda>i. p @ [segment nm (Num (count_value sc nm + Suc i))])
       [0..<length (filter (\<lambda>el. el_type el = TElement \<and> element_name el = nm) els)]"
proof (induction els arbitrary: sc)
  case Nil
  then show ?case by simp
next
  case (Cons e els)
  show ?case
  proof (cases "el_type e = TElement")
    case False
    with Cons show ?thesis by simp
  next
    case True
    let ?e = "element_name e"
    let ?sc = "set_count sc ?e (next_index sc ?e)"
    show ?thesis
    proof (cases "?e = nm")
      case False
      then have "numeric_count ?sc nm" "count_value ?sc nm = count_value sc nm"
        using Cons.prems set_count_other [of ?e nm sc] by simp_all
      with Cons.IH [of ?sc] True False show ?thesis by simp
    next
      case eq: True
      have ni: "next_index sc nm = Num (Suc (count_value sc nm))"
        using assms Cons.prems by (rule next_index_numeric)
      have sc': "numeric_count ?sc nm" "count_value ?sc nm = Suc (count_value sc nm)"
        using set_count_same [OF assms, of sc "Suc (count_value sc nm)"] eq ni by simp_all
      show ?thesis
        using True eq ni Cons.IH [OF sc'(1)] sc'(2)
        by (simp add: upt_shift del: upt_Suc)
    qed
  qed
qed

lemma editor_numbered:
  assumes "Object_prototype nm = None"
  shows "numeric_count sc nm \<Longrightarrow>
     map node_path (filter (\<lambda>n. node_name n = nm) (buildEditableTree_each els pa pp sc)) =
     map (\<lambda>i. (if pa \<noteq> [] then pa @ ''.'' else []) @ segment nm (Num (count_value sc nm + Suc i)))
       [0..<length (filter (\<lambda>el. el_type el = TElement \<and>
           (case el_name el of None \<Rightarrow> ''unnamed'' | Some n \<Rightarrow> if n = [] then ''unnamed'' else n) = nm) els)]"
proof (induction els arbitrary: sc)
  case Nil
  then show ?case by simp
next
  case (Cons e els)
  show ?case
  proof (cases "el_type e = TElement")
    case False
    with Cons show ?thesis by simp
  next
    case True
    let ?e = "case el_name e of None \<Rightarrow> ''unnamed'' | Some n \<Rightarrow> if n = [] then ''unnamed'' else n"
    let ?sc = "set_count sc ?e (next_count sc ?e)"
    show ?thesis
    proof (cases "?e = nm")
      case False
      then have "numeric_count ?sc nm" "count_value ?sc nm = count_value sc nm"
        using Cons.prems set_count_other [of ?e nm sc] by simp_all
      with Cons.IH [of ?sc] True False show ?thesis by (simp add: Let_def)
    next
      case eq: True
      have ni: "next_count sc nm = Num (Suc (count_value sc nm))"
        using assms Cons.prems by (rule next_count_numeric)
      have sc': "numeric_count ?sc nm" "count_value ?sc nm = Suc (count_value sc nm)"
        using set_count_same [OF assms, of sc "Suc (count_value sc nm)"] eq ni by simp_all
      show ?thesis
        using True eq ni Cons.IH [OF sc'(1)] sc'(2)
        by (simp add: upt_shift Let_def del: upt_Suc)
    qed
  qed
qed

lemma unnamed_plain: "Object_prototype ''unnamed'' = None"
  by (simp add: Object_prototype_def)

lemma empty_numeric: "numeric_count Map.empty nm \<and> count_value Map.empty nm = 0"
  by (simp add: numeric_count_def count_value_def)

lemma distinct_numbered: "distinct (map (\<lambda>i. pre @ segment nm (Num (Suc i))) [0..<k])"
  by (auto simp: distinct_map inj_on_def dest: segment_Num_inj)

lemma distinct_numbered_path: "distinct (map (\<lambda>i. p @ [segment nm (Num (Suc i))]) [0..<k])"
  by (auto simp: distinct_map inj_on_def dest: segment_Num_inj)

lemma is_unnamed: "(element_name el = ''unnamed'') = (el_name el = None \<or> el_name el = Some ''unnamed'')"
  by (auto simp: element_name_def split: option.splits)

lemma is_unnamed_editor:
  "((case el_name el of None \<Rightarrow> ''unnamed'' | Some n \<Rightarrow> if n = [] then ''unnamed'' else n) = ''unnamed'') =
   (el_name el = None \<or> el_name el = Some [] \<or> el_name el = Some ''unnamed'')"
  by (auto split: option.splits)

text \<open>
  Claim C10. An element whose parsed name is missing is treated by the loop of the
  flattener and by the loop of the tree builder of the editor exactly as the same
  element with the name \<^verbatim>\<open>unnamed\<close> written out. The paths that the flattener
  gives, under one parent and from a fresh table of counters, to the elements whose name
  is missing or is \<^verbatim>\<open>unnamed\<close> are, in document order, the parent's path
  followed by \<^verbatim>\<open>unnamed[1]\<close>, \<^verbatim>\<open>unnamed[2]\<close>, and so on, one for each such
  element: they are pairwise distinct. The same holds of the paths of the nodes named
  \<^verbatim>\<open>unnamed\<close> that the tree builder returns, where an empty name counts as missing
  too. The entries that the loop of the flattener writes are those of the elements at
  these paths.
\<close>

theorem unnamed_shares_counter:
  "for_elements est o' p (map unnamed_written els) sc st = for_elements est o' p els sc st \<and>
   buildEditableTree_each (map unnamed_written els) pa pp sc = buildEditableTree_each els pa pp sc \<and>
   collector (for_elements est o' p els Map.empty st) =
     apply_writes (collector st)
       (concat (map (\<lambda>(cp, el). entries (join_dot cp) el) (indexed p Map.empty els))) \<and>
   map fst (filter (\<lambda>(cp, el). el_name el = None \<or> el_name el = Some ''unnamed'')
       (indexed p Map.empty els)) =
     map (\<lambda>i. p @ [segment ''unnamed'' (Num (Suc i))])
       [0..<length (filter (\<lambda>el. el_type el = TElement \<and>
            (el_name el = None \<or> el_name el = Some ''unnamed'')) els)] \<and>
   distinct (map fst (filter (\<lambda>(cp, el). el_name el = None \<or> el_name el = Some ''unnamed'')
       (indexed p Map.empty els))) \<and>
   map node_path (filter (\<lambda>n. node_name n = ''unnamed'')
       (buildEditableTree_each els pa pp Map.empty)) =
     map (\<lambda>i. (if pa \<noteq> [] then pa @ ''.'' else []) @ segment ''unnamed'' (Num (Suc i)))
       [0..<length (filter (\<lambda>el. el_type el = TElement \<and>
            (el_name el = None \<or> el_name el = Some [] \<or> el_name el = Some ''unnamed'')) els)] \<and>
   distinct (map node_path (filter (\<lambda>n. node_name n = ''unnamed'')
       (buildEditableTree_each els pa pp Map.empty)))"
proof -
  have a: "map fst (filter (\<lambda>(cp, el). el_name el = None \<or> el_name el = Some ''unnamed'')
       (indexed p Map.empty els)) =
     map (\<lambda>i. p @ [segment ''unnamed'' (Num (Suc i))])
       [0..<length (filter (\<lambda>el. el_type el = TElement \<and>
            (el_name el = None \<or> el_name el = Some ''unnamed'')) els)]"
    using indexed_numbered [OF unnamed_plain, of Map.empty p els] empty_numeric [of "''unnamed''"]
    by (simp add: is_unnamed)
  have b: "map node_path (filter (\<lambda>n. node_name n = ''unnamed'')
       (buildEditableTree_each els pa pp Map.empty)) =
     map (\<lambda>i. (if pa \<noteq> [] then pa @ ''.'' else []) @ segment ''unnamed'' (Num (Suc i)))
       [0..<length (filter (\<lambda>el. el_type el = TElement \<and>
            (el_name el = None \<or> el_name el = Some [] \<or> el_name el = Some ''unnamed'')) els)]"
    using editor_numbered [OF unnamed_plain, of Map.empty els pa pp] empty_numeric [of "''unnamed''"]
    by (simp add: is_unnamed_editor)
  show ?thesis
    unfolding a b
    by (simp only: for_elements_unnamed buildEditableTree_unnamed for_elements_collector_stack
        distinct_numbered distinct_numbered_path simp_thms)
qed


lemma unnamed_doc_flat_segments:
  "map (\<lambda>i. [] @ [segment ''unnamed'' (Num (Suc i))])
     [0..<length (filter (\<lambda>el. el_type el = TElement \<and>
          (el_name el = None \<or> el_name el = Some ''unnamed'')) unnamed_doc)] =
   [[''unnamed[1]''], [''unnamed[2]''], [''unnamed[3]'']]"
  by code_simp

lemma unnamed_doc_editor_segments:
  "map (\<lambda>i. (if [] \<noteq> ([] :: string) then [] @ ''.'' else []) @ segment ''unnamed'' (Num (Suc i)))
     [0..<length (filter (\<lambda>el. el_type el = TElement \<and>
          (el_name el = None \<or> el_name el = Some [] \<or> el_name el = Some ''unnamed'')) unnamed_doc)] =
   [''unnamed[1]'', ''unnamed[2]'', ''unnamed[3]'']"
  by code_simp

lemma unnamed_doc_map:
  "map' (fst (flatten_parsed exact_estimate left_opts (Some unnamed_doc))) =
     [(''unnamed[1]/@k'', ''1''), (''unnamed[2]/@k'', ''2''), (''unnamed[3]/@k'', ''3'')]"
  by code_simp

theorem unnamed_shares_counter_witness:
  "map fst (filter (\<lambda>(cp, el). el_name el = None \<or> el_name el = Some ''unnamed'')
       (indexed [] Map.empty unnamed_doc)) =
     [[''unnamed[1]''], [''unnamed[2]''], [''unnamed[3]'']] \<and>
   map node_path (filter (\<lambda>n. node_name n = ''unnamed'')
       (buildEditableTree_each unnamed_doc [] [] Map.empty)) =
     [''unnamed[1]'', ''unnamed[2]'', ''unnamed[3]''] \<and>
   map' (fst (flatten_parsed exact_estimate left_opts (Some unnamed_doc))) =
     [(''unnamed[1]/@k'', ''1''), (''unnamed[2]/@k'', ''2''), (''unnamed[3]/@k'', ''3'')]"
proof -
  note t = unnamed_shares_counter [of exact_estimate left_opts "[]" unnamed_doc Map.empty
      "\<lparr>collector = [], stack = [], processedElements = 0, lastEmit = 0, posted = []\<rparr>" "[]" "[]"]
  have "map fst (filter (\<lambda>(cp, el). el_name el = None \<or> el_name el = Some ''unnamed'')
       (indexed [] Map.empty unnamed_doc)) =
     [[''unnamed[1]''], [''unnamed[2]''], [''unnamed[3]'']]"
    using t unfolding unnamed_doc_flat_segments by blast
  moreover have "map node_path (filter (\<lambda>n. node_name n = ''unnamed'')
       (buildEditableTree_each unnamed_doc [] [] Map.empty)) =
     [''unnamed[1]'', ''unnamed[2]'', ''unnamed[3]'']"
    using t unfolding unnamed_doc_editor_segments by blast
  ultimately show ?thesis using unnamed_doc_map by blast
qed

section \<open>A request whose progress decreases\<close>

lemma posted_big_doc:
  "snd (flatten_parsed exact_estimate left_opts (Some big_doc)) =
     [(0, ParsingXML), (45, ScanningElements), (41, ScanningElements), (45, FlattenComplete)]"
  by code_simp

text \<open>
  Claim C6 as stated fails: for a root with 249 childless children, then 50 children
  with one child each, then 200 childless children, compared with a small document,
  the percents are 0, 45, 41, 45, 45, 90, 92, 99: they decrease from 45 to 41, and
  none is 100. The two estimates of the scan are the roundings of
  \<open>250 / 251 * 45 = 44.82\<close> and of \<open>500 / 551 * 45 = 40.83\<close>, which are
  not near a half, so that the exact quotient \<^const>\<open>exact_estimate\<close> and the
  floating-point expression agree on them.
\<close>

theorem progress_decreases:
  "percents (onmessage big_xml2js exact_estimate compare_codes
      \<lparr>leftXml = big_xml, rightXml = ''<a><b>1</b><b>3</b></a>''\<rparr>) =
     [0, 45, 41, 45, 45, 90, 92, 99] \<and>
   \<not> sorted (percents (onmessage big_xml2js exact_estimate compare_codes
      \<lparr>leftXml = big_xml, rightXml = ''<a><b>1</b><b>3</b></a>''\<rparr>)) \<and>
   100 \<notin> set (percents (onmessage big_xml2js exact_estimate compare_codes
      \<lparr>leftXml = big_xml, rightXml = ''<a><b>1</b><b>3</b></a>''\<rparr>))"
proof -
  have l: "big_xml2js big_xml = Inr (Some big_doc)"
    by (simp add: big_xml2js_def)
  have r: "big_xml2js ''<a><b>1</b><b>3</b></a>'' = Inr (Some example_right)"
    by (simp add: big_xml2js_def big_xml_def example_xml2js_def)
  have "percents (onmessage big_xml2js exact_estimate compare_codes
      \<lparr>leftXml = big_xml, rightXml = ''<a><b>1</b><b>3</b></a>''\<rparr>) =
     [0, 45, 41, 45, 45, 90, 92, 99]"
    by (simp add: onmessage_unfold mapXmlToFlat_def l r error_flatten_parsed truthy_def
        posted_big_doc posted_example_right percents_def List.map_filter_simps)
  then show ?thesis by simp
qed

end
